theory Spec2Isabelle
  imports Main "HOL-Library.AList"
begin

section \<open>The mpv IPC client of \<^verbatim>\<open>src/index.ts\<close>\<close>

text \<open>
  \<^verbatim>\<open>Mpv()\<close> builds one session: a closure over the socket, the \<^verbatim>\<open>mpv\<close> object, the two
  maps \<^verbatim>\<open>observers\<close> and \<^verbatim>\<open>requests\<close>, the counters \<^verbatim>\<open>observeId\<close> and \<^verbatim>\<open>requestId\<close> and
  the array \<^verbatim>\<open>queue\<close>. The model is a record of these variables, passed through every
  function of the closure and returned updated. What the code does to the outside world
  (bytes written to the socket, promises settled, events emitted, callbacks called) is
  appended to two logs of the record, \<open>written\<close> and \<open>effects\<close>.
\<close>

subsection \<open>Values\<close>

text \<open>
  A JavaScript value as far as the code looks at it: what \<^verbatim>\<open>JSON.parse\<close> can return,
  and \<^verbatim>\<open>undefined\<close>. Numbers are integers here (request ids and observer ids are).
\<close>

datatype jsval =
    JUndefined
  | JNull
  | JBool bool
  | JNum int
  | JStr string
  | JArr "jsval list"
  | JObj "(string \<times> jsval) list"

text \<open>A callback is a function object; the model keeps its identity only.\<close>

type_synonym callback = nat

text \<open>
  \<^verbatim>\<open>JSON.stringify({ request_id: id, command: args.filter((x) => x !== undefined) }) + "\n"\<close>:
  the model keeps the object that is serialised, not its text.
\<close>

datatype message = Message nat "jsval list"

text \<open>
  \<^verbatim>\<open>interface Request\<close>. \<^verbatim>\<open>resolve\<close> and \<^verbatim>\<open>reject\<close> are the two ends of the promise that the
  call of \<^verbatim>\<open>command\<close> returns; a settlement is logged with the request it belongs to.
  The field \<^verbatim>\<open>id\<close> is \<open>ident\<close> here (\<open>id\<close> is the identity function of HOL).
\<close>

record request =
  message :: message
  ident :: nat
  args :: "jsval list"

datatype MPV_STATUS = stopped | starting | STARTED | ERRORED

text \<open>\<^verbatim>\<open>socket.readyState\<close> of Node's \<^verbatim>\<open>net.Socket\<close>.\<close>

datatype ready_state = Opening | Open | ReadOnly | WriteOnly | Closed

text \<open>The errors the code throws or passes on. \<open>ProcessClosed\<close> is
  \<^verbatim>\<open>new Error(stderr || "closed")\<close>; \<open>Unhandled x\<close> is what an \<^verbatim>\<open>EventEmitter\<close> throws when
  \<^verbatim>\<open>"error"\<close> is emitted with the value \<open>x\<close>, which is no \<^verbatim>\<open>Error\<close>, and nobody listens.\<close>

datatype js_error =
    SyntaxError
  | TypeError
  | CommandFailed "jsval list" jsval
  | ReplyError jsval jsval
  | TimedOut
  | SocketError string
  | AssertionError string
  | ProcessClosed
  | Unhandled jsval

text \<open>The value of a \<^verbatim>\<open>Map\<close> entry of \<^verbatim>\<open>observers\<close>: \<^verbatim>\<open>{ id, fns: new Set([fn]) }\<close>.
  A \<^verbatim>\<open>Set\<close> keeps insertion order and has no duplicates.\<close>

record observer =
  obs_id :: nat
  fns :: "callback list"

text \<open>
  What is attached to the promise of a \<^verbatim>\<open>command\<close> call by its caller inside the closure:
  the \<^verbatim>\<open>.then\<close> of \<^verbatim>\<open>observe\<close>, which stores the entry, and the \<^verbatim>\<open>.catch\<close> of \<^verbatim>\<open>unobserve\<close>,
  which emits \<^verbatim>\<open>"error"\<close>.
\<close>

datatype reaction = StoreObserver string nat callback | EmitOnReject

datatype settled = Fulfilled jsval | Broken js_error

datatype effect =
    Resolved request jsval
  | Rejected request js_error
  | Emitted jsval jsval
  | EmittedError js_error
  | EmittedRestarted
  | Called callback jsval

text \<open>\<^verbatim>\<open>mpv.process\<close>: the handle of \<^verbatim>\<open>cp.spawn\<close>, with what the code reads and changes,
  and whether the child has exited (\<^verbatim>\<open>kill()\<close> of Node sends no signal to a child that has).\<close>

datatype listener = OnceError | OnceClose | OnClose

record child =
  pid :: nat
  killed :: bool
  exited :: bool
  listeners :: "listener list"
  unrefd :: bool

record session =
  status :: MPV_STATUS
  process :: "child option"
  spawned :: nat
  readyState :: ready_state
  observers :: "(string \<times> observer) list"
  observer_props :: "(string \<times> nat) list"
  requests :: "(nat \<times> request) list"
  observeId :: nat
  requestId :: nat
  issued :: "nat list"
  queue :: "request list"
  reactions :: "(nat \<times> reaction) list"
  microtasks :: "(reaction \<times> nat \<times> settled) list"
  derived :: "(nat \<times> settled) list"
  written :: "message list"
  effects :: "effect list"
  error_listeners :: nat

text \<open>
  A \<^verbatim>\<open>Map\<close> is an association list in insertion order: \<^verbatim>\<open>set\<close> is \<^const>\<open>AList.update\<close>
  (an existing key keeps its place, a new key goes to the end), \<^verbatim>\<open>delete\<close> is
  \<^const>\<open>AList.delete\<close>, \<^verbatim>\<open>get\<close> is \<^const>\<open>map_of\<close>, and \<^verbatim>\<open>forEach\<close> visits the list from
  its head.

  \<^verbatim>\<open>observers[x] = promise\<close> does not add a \<^verbatim>\<open>Map\<close> entry: it sets a property of the
  \<^verbatim>\<open>Map\<close> object. These properties are \<open>observer_props\<close>; a promise is named by the id of
  the request whose reply settles it. \<open>reactions\<close> holds what the closure attached to a
  promise, \<open>microtasks\<close> the reaction jobs of settled promises that have not run yet, and
  \<open>derived\<close> the state of the promises that \<^verbatim>\<open>.then\<close> returned in \<^verbatim>\<open>observe\<close>, once settled.
  \<open>issued\<close> is a history that no function reads: the id of the request of every
  \<^verbatim>\<open>new Promise\<close> of \<^verbatim>\<open>command\<close>, in the order of the calls.
  \<open>error_listeners\<close> is the number of listeners that the caller has put on the \<^verbatim>\<open>"error"\<close>
  event of \<^verbatim>\<open>mpv\<close> (\<^verbatim>\<open>mpv.on("error", ...)\<close>); the closure itself puts none.
\<close>

definition init :: session where
  "init = \<lparr> status = stopped, process = None, spawned = 0, readyState = Closed,
            observers = [], observer_props = [], requests = [],
            observeId = 0, requestId = 0, issued = [], queue = [], reactions = [], microtasks = [],
            derived = [],
            written = [], effects = [], error_listeners = 0 \<rparr>"

subsection \<open>The request correlator\<close>

text \<open>
  \<^verbatim>\<open>function write(request) { socket.write(request.message); requests.set(request.id, request); }\<close>
\<close>

definition "write" :: "request \<Rightarrow> session \<Rightarrow> session" where
  "write request s =
     s\<lparr> written := written s @ [message request],
        requests := AList.update (ident request) request (requests s) \<rparr>"

text \<open>
  \<^verbatim>\<open>function command(...args)\<close>: the next id, the request, and then a write or a push.
  The result is the promise (named by the id) and the new state. JavaScript numbers count
  exactly up to \<open>2^53\<close>; the counter is a natural number here.
\<close>

definition mk_request :: "nat \<Rightarrow> jsval list \<Rightarrow> request" where
  "mk_request i as =
     \<lparr> message = Message i (filter (\<lambda>x. x \<noteq> JUndefined) as), ident = i, args = as \<rparr>"

definition command :: "jsval list \<Rightarrow> session \<Rightarrow> nat \<times> session" where
  "command as s =
     (let i = requestId s + 1;
          s1 = s\<lparr> requestId := i, issued := issued s @ [i] \<rparr>;
          request = mk_request i as
      in (i, if readyState s1 = Open then write request s1
             else s1\<lparr> queue := queue s1 @ [request] \<rparr>))"

text \<open>
  \<^verbatim>\<open>function ready()\<close>:
  \<^verbatim>\<open>observers.forEach(({ id }, x) => command("observe_property", id, x));\<close>
  \<^verbatim>\<open>requests.forEach(write); queue.forEach(write); queue = [];\<close>
  Each \<^verbatim>\<open>forEach\<close> runs over the collection as the statements before it left it.
  \<^verbatim>\<open>requests\<close> is changed by \<^verbatim>\<open>write\<close> and by \<^verbatim>\<open>delete\<close> only, so every entry is stored
  under the id of its request (\<open>ids_ok\<close> below): in the second loop \<^verbatim>\<open>write\<close> sets the key
  it is visiting to the value it has, and the loop meets no entry that it added itself.
\<close>

definition observe_property :: "nat \<Rightarrow> string \<Rightarrow> jsval list" where
  "observe_property i x = [JStr ''observe_property'', JNum (int i), JStr x]"

definition ready :: "session \<Rightarrow> session" where
  "ready s =
     (let s1 = fold (\<lambda>(x, ob) t. snd (command (observe_property (obs_id ob) x) t)) (observers s) s;
          s2 = fold (\<lambda>(k, request) t. write request t) (requests s1) s1;
          s3 = fold write (queue s2) s2
      in s3\<lparr> queue := [] \<rparr>)"

subsection \<open>Dispatch of inbound frames\<close>

text \<open>
  \<^verbatim>\<open>x.event\<close>, \<^verbatim>\<open>x.name\<close>, \<^verbatim>\<open>x.data\<close>, \<^verbatim>\<open>x.request_id\<close>, \<^verbatim>\<open>x.error\<close>: a property that an object
  does not have, and any of these five on a number, string, boolean or array, is
  \<^verbatim>\<open>undefined\<close>. On \<^verbatim>\<open>null\<close> the access throws, which \<open>handle\<close> checks first.
\<close>

fun field :: "string \<Rightarrow> jsval \<Rightarrow> jsval" where
  "field k (JObj kvs) = (case map_of kvs k of Some v \<Rightarrow> v | None \<Rightarrow> JUndefined)"
| "field k _ = JUndefined"

fun truthy :: "jsval \<Rightarrow> bool" where
  "truthy JUndefined = False"
| "truthy JNull = False"
| "truthy (JBool b) = b"
| "truthy (JNum n) = (n \<noteq> 0)"
| "truthy (JStr s) = (s \<noteq> [])"
| "truthy (JArr _) = True"
| "truthy (JObj _) = True"

text \<open>The keys of \<^verbatim>\<open>observers\<close> are strings and the keys of \<^verbatim>\<open>requests\<close> are the ids.\<close>

fun key_of :: "jsval \<Rightarrow> string option" where
  "key_of (JStr k) = Some k"
| "key_of _ = None"

fun id_of :: "jsval \<Rightarrow> nat option" where
  "id_of (JNum n) = (if 0 \<le> n then Some (nat n) else None)"
| "id_of _ = None"

text \<open>An entry of the log of effects.\<close>

definition emit :: "effect \<Rightarrow> session \<Rightarrow> session" where
  "emit e s = s\<lparr> effects := effects s @ [e] \<rparr>"

text \<open>
  \<^verbatim>\<open>mpv.emit("error", e)\<close> and \<^verbatim>\<open>mpv.emit(x.event, x)\<close>. \<^verbatim>\<open>mpv\<close> is an \<^verbatim>\<open>EventEmitter\<close>:
  emitting \<^verbatim>\<open>"error"\<close> while no listener of \<^verbatim>\<open>"error"\<close> is attached throws the value
  (wrapped, if it is no \<^verbatim>\<open>Error\<close>); any other emit returns. Listeners are taken to return.
\<close>

definition emit_error :: "js_error \<Rightarrow> session \<Rightarrow> js_error + session" where
  "emit_error e s =
     (if error_listeners s = 0 then Inl e else Inr (emit (EmittedError e) s))"

definition emit_event :: "jsval \<Rightarrow> jsval \<Rightarrow> session \<Rightarrow> js_error + session" where
  "emit_event name x s =
     (if name = JStr ''error'' \<and> error_listeners s = 0 then Inl (Unhandled x)
      else Inr (emit (Emitted name x) s))"

text \<open>
  Settling the promise of a request: the settlement is logged, and the reaction that the
  closure attached to the promise, if any, becomes a microtask.
\<close>

definition settle :: "request \<Rightarrow> settled \<Rightarrow> session \<Rightarrow> session" where
  "settle request v s =
     (let s1 = emit (case v of Fulfilled d \<Rightarrow> Resolved request d
                             | Broken e \<Rightarrow> Rejected request e) s
      in case map_of (reactions s1) (ident request) of
           None \<Rightarrow> s1
         | Some r \<Rightarrow> s1\<lparr> microtasks := microtasks s1 @ [(r, ident request, v)] \<rparr>)"

text \<open>\<^verbatim>\<open>function handle(x)\<close>. \<open>Inl\<close> is a throw. The callbacks of the observers are taken
  to return.\<close>

definition unmatched :: "jsval \<Rightarrow> session \<Rightarrow> js_error + session" where
  "unmatched x s =
     (if field ''error'' x \<noteq> JStr ''success''
      then emit_error (ReplyError (field ''error'' x) x) s else Inr s)"

definition matched :: "nat \<Rightarrow> request \<Rightarrow> jsval \<Rightarrow> session \<Rightarrow> session" where
  "matched i request x s =
     (let s1 = s\<lparr> requests := AList.delete i (requests s) \<rparr>
      in if field ''error'' x = JStr ''success''
         then settle request (Fulfilled (field ''data'' x)) s1
         else settle request (Broken (CommandFailed (args request) (field ''error'' x))) s1)"

definition handle :: "jsval \<Rightarrow> session \<Rightarrow> js_error + session" where
  "handle x s =
     (if x = JNull \<or> x = JUndefined then Inl TypeError
      else if truthy (field ''event'' x) then
        (if field ''event'' x = JStr ''property-change'' then
           (case key_of (field ''name'' x) of
              None \<Rightarrow> Inr s
            | Some k \<Rightarrow>
               (case map_of (observers s) k of
                  None \<Rightarrow> Inr s
                | Some ob \<Rightarrow> Inr (fold (\<lambda>fn t. emit (Called fn (field ''data'' x)) t) (fns ob) s)))
         else emit_event (field ''event'' x) x s)
      else
        (case id_of (field ''request_id'' x) of
           None \<Rightarrow> unmatched x s
         | Some i \<Rightarrow>
            (case map_of (requests s) i of
               None \<Rightarrow> unmatched x s
             | Some request \<Rightarrow> Inr (matched i request x s))))"

text \<open>
  The reaction jobs. \<^verbatim>\<open>.then((result) => { observers.set(x, { id, fns: new Set([fn]) });
  return result; })\<close> runs on fulfilment and passes a rejection on;
  \<^verbatim>\<open>.catch((e) => mpv.emit("error", e))\<close> runs on rejection; when nobody listens to
  \<^verbatim>\<open>"error"\<close> the throw of \<^verbatim>\<open>emit\<close> rejects the promise that \<^verbatim>\<open>.catch\<close> returned, which
  nothing holds, and the session is as it was.
\<close>

fun run_microtask :: "reaction \<times> nat \<times> settled \<Rightarrow> session \<Rightarrow> session" where
  "run_microtask (StoreObserver x i fn, p, Fulfilled v) s =
     s\<lparr> observers := AList.update x \<lparr> obs_id = i, fns = [fn] \<rparr> (observers s),
        derived := AList.update p (Fulfilled v) (derived s) \<rparr>"
| "run_microtask (StoreObserver x i fn, p, Broken e) s =
     s\<lparr> derived := AList.update p (Broken e) (derived s) \<rparr>"
| "run_microtask (EmitOnReject, p, Fulfilled v) s = s"
| "run_microtask (EmitOnReject, p, Broken e) s =
     (case emit_error e s of Inl e1 \<Rightarrow> s | Inr s1 \<Rightarrow> s1)"

definition drain :: "session \<Rightarrow> session" where
  "drain s = (fold run_microtask (microtasks s) (s\<lparr> microtasks := [] \<rparr>))"

text \<open>\<^verbatim>\<open>.forEach(handle)\<close>: a throw ends the loop and leaves what was done so far.\<close>

fun handle_all :: "jsval list \<Rightarrow> session \<Rightarrow> js_error option \<times> session" where
  "handle_all [] s = (None, s)"
| "handle_all (x # xs) s =
     (case handle x s of Inl e \<Rightarrow> (Some e, s) | Inr s1 \<Rightarrow> handle_all xs s1)"

text \<open>
  One turn of the event loop for a chunk whose lines are parsed: the frames are handled
  one after the other, and the microtasks run after the loop has returned.
\<close>

definition deliver :: "jsval list \<Rightarrow> session \<Rightarrow> js_error option \<times> session" where
  "deliver xs s =
     (case handle_all xs s of
        (Some e, s1) \<Rightarrow> (Some e, s1)
      | (None, s1) \<Rightarrow> (None, drain s1))"

text \<open>
  \<^verbatim>\<open>x.split(/\r?\n/g)\<close>: a line feed, with the carriage return before it if there is one,
  ends a segment. A character is a code unit below 256.
\<close>

definition LF :: char where "LF = CHR 0x0A"
definition CR :: char where "CR = CHR 0x0D"

fun split_acc :: "string \<Rightarrow> string \<Rightarrow> string list" where
  "split_acc acc [] = [rev acc]"
| "split_acc acc [c] = (if c = LF then [rev acc, []] else [rev (c # acc)])"
| "split_acc acc (c # d # cs) =
     (if c = CR \<and> d = LF then rev acc # split_acc [] cs
      else if c = LF then rev acc # split_acc [] (d # cs)
      else split_acc (c # acc) (d # cs))"

definition split_lines :: "string \<Rightarrow> string list" where
  "split_lines x = split_acc [] x"

text \<open>\<^verbatim>\<open>String.prototype.trim\<close>: white space and line terminators, at both ends.\<close>

definition is_space :: "char \<Rightarrow> bool" where
  "is_space c = (c \<in> set [CHR 0x09, CHR 0x0A, CHR 0x0B, CHR 0x0C, CHR 0x0D, CHR 0x20, CHR 0xA0])"

definition trim :: "string \<Rightarrow> string" where
  "trim x = rev (dropWhile is_space (rev (dropWhile is_space x)))"

text \<open>
  \<^verbatim>\<open>.map((x) => JSON.parse(x.trim()))\<close> over the whole array, before any frame is handled.
  \<^verbatim>\<open>JSON.parse\<close> is the parameter \<open>parse\<close>; \<open>None\<close> is its \<^verbatim>\<open>SyntaxError\<close>.
\<close>

fun parse_all :: "(string \<Rightarrow> jsval option) \<Rightarrow> string list \<Rightarrow> jsval list option" where
  "parse_all parse [] = Some []"
| "parse_all parse (x # xs) =
     (case parse (trim x) of
        None \<Rightarrow> None
      | Some v \<Rightarrow> (case parse_all parse xs of None \<Rightarrow> None | Some vs \<Rightarrow> Some (v # vs)))"

text \<open>\<^verbatim>\<open>function data(x)\<close>.\<close>

definition segments :: "string \<Rightarrow> string list" where
  "segments x = filter (\<lambda>l. l \<noteq> []) (split_lines x)"

definition data :: "(string \<Rightarrow> jsval option) \<Rightarrow> string \<Rightarrow> session \<Rightarrow> js_error option \<times> session" where
  "data parse x s =
     (case parse_all parse (segments x) of
        None \<Rightarrow> (Some SyntaxError, s)
      | Some frames \<Rightarrow> deliver frames s)"

subsection \<open>The observation registry\<close>

text \<open>
  \<^verbatim>\<open>async function observe(x, fn)\<close>. When \<^verbatim>\<open>observers.has(x)\<close>, the call awaits the property
  \<^verbatim>\<open>observers[x]\<close>, which holds the promise that \<^verbatim>\<open>.then\<close> returned: it is fulfilled with
  \<^verbatim>\<open>result\<close>, the \<^verbatim>\<open>data\<close> of the reply, a JSON value or \<^verbatim>\<open>undefined\<close>. On such a value
  \<^verbatim>\<open>observer.fns.add(fn)\<close> throws a \<^verbatim>\<open>TypeError\<close>: \<^verbatim>\<open>fns\<close> is missing, or it is a JSON
  value, which has no method \<^verbatim>\<open>add\<close>. The session is not changed on this path. While the
  promise is pending the call is suspended; it ends later in one of the other two ways.
  Keys are the names of player properties, none of which is the name of a member of
  \<^verbatim>\<open>Map\<close> (an assignment \<^verbatim>\<open>observers["has"] = ...\<close> would hide the method).
\<close>

datatype observe_result = Unsubscribe string callback | Threw js_error | Suspended

definition awaited :: "string \<Rightarrow> session \<Rightarrow> observe_result" where
  "awaited x s =
     (case map_of (observer_props s) x of
        None \<Rightarrow> Threw TypeError
      | Some p \<Rightarrow>
         (case map_of (derived s) p of
            None \<Rightarrow> Suspended
          | Some (Fulfilled v) \<Rightarrow> Threw TypeError
          | Some (Broken e) \<Rightarrow> Threw e))"

definition observe :: "string \<Rightarrow> callback \<Rightarrow> session \<Rightarrow> observe_result \<times> session" where
  "observe x fn s =
     (if map_of (observers s) x \<noteq> None then (awaited x s, s)
      else
        (let i = observeId s + 1;
             s1 = s\<lparr> observeId := i \<rparr>;
             (p, s2) = command (observe_property i x) s1
         in (Unsubscribe x fn,
             s2\<lparr> reactions := AList.update p (StoreObserver x i fn) (reactions s2),
                 observer_props := AList.update x p (observer_props s2) \<rparr>)))"

text \<open>
  \<^verbatim>\<open>async function unobserve(x, fn)\<close>. \<^verbatim>\<open>observers.get(x)\<close> is \<^verbatim>\<open>undefined\<close> when there is no
  entry, and \<^verbatim>\<open>observer.fns\<close> then throws; the first component is the error that the
  returned promise is rejected with.
\<close>

definition unobserve_property :: "nat \<Rightarrow> jsval list" where
  "unobserve_property i = [JStr ''unobserve_property'', JNum (int i)]"

definition unobserve :: "string \<Rightarrow> callback \<Rightarrow> session \<Rightarrow> js_error option \<times> session" where
  "unobserve x fn s =
     (case map_of (observers s) x of
        None \<Rightarrow> (Some TypeError, s)
      | Some ob \<Rightarrow>
         (let ob1 = ob\<lparr> fns := removeAll fn (fns ob) \<rparr>;
              s1 = s\<lparr> observers := AList.update x ob1 (observers s) \<rparr>
          in if fns ob1 = [] then
               (let s2 = s1\<lparr> observers := AList.delete x (observers s1) \<rparr>;
                    (p, s3) = command (unobserve_property (obs_id ob1)) s2
                in (None, s3\<lparr> reactions := AList.update p EmitOnReject (reactions s3) \<rparr>))
             else (None, s1)))"

text \<open>The function that \<^verbatim>\<open>observe\<close> returns is \<^verbatim>\<open>() => unobserve(x, fn)\<close>: calling the
  function of \<open>Unsubscribe x fn\<close> is \<open>unobserve x fn\<close>.\<close>

subsection \<open>The process supervisor\<close>

text \<open>
  \<^verbatim>\<open>function kill() { mpv.process && !mpv.process.killed && mpv.process.kill(); }\<close>
  \<^verbatim>\<open>ChildProcess.kill()\<close> sends the signal and sets \<^verbatim>\<open>killed\<close> when the child is running,
  and does nothing but return \<^verbatim>\<open>false\<close> when the child has exited.
\<close>

definition kill :: "session \<Rightarrow> session" where
  "kill s =
     (case process s of
        None \<Rightarrow> s
      | Some p \<Rightarrow>
         if killed p then s
         else if exited p then s
         else s\<lparr> process := Some (p\<lparr> killed := True \<rparr>) \<rparr>)"

text \<open>\<^verbatim>\<open>function end()\<close> (\<open>end\<close> is a keyword of Isabelle).\<close>

definition end_mpv :: "session \<Rightarrow> session" where
  "end_mpv s =
     (case process s of
        None \<Rightarrow> s
      | Some p \<Rightarrow>
         (let s1 = s\<lparr> process := Some (p\<lparr> listeners := [] \<rparr>) \<rparr>;
              s2 = kill s1
          in s2\<lparr> process := map_option (\<lambda>q. q\<lparr> unrefd := True \<rparr>) (process s2) \<rparr>))"

text \<open>\<^verbatim>\<open>function error(_) { mpv.status === MPV_STATUS.STARTED && kill(); }\<close>, the listener
  of the socket's \<^verbatim>\<open>"error"\<close>.\<close>

definition error_listener :: "session \<Rightarrow> session" where
  "error_listener s = (if status s = STARTED then kill s else s)"

text \<open>
  \<^verbatim>\<open>async function start(emit)\<close>, in the three pieces between which it is suspended.
  \<open>start\<close> is the call up to the \<^verbatim>\<open>await\<close>: the guard, the spawn of a new child with the
  two \<^verbatim>\<open>once\<close> listeners, and the call of \<^verbatim>\<open>connect\<close>. \<open>start_connected\<close> is what follows
  when the awaited promise is fulfilled, \<open>start_failed\<close> the \<^verbatim>\<open>catch\<close> block.
\<close>

datatype start_result = Returned | Awaiting

definition spawn :: "session \<Rightarrow> session" where
  "spawn s =
     s\<lparr> process := Some \<lparr> pid = spawned s + 1, killed = False, exited = False,
                          listeners = [OnceError, OnceClose], unrefd = False \<rparr>,
        spawned := spawned s + 1 \<rparr>"

definition start :: "bool \<Rightarrow> session \<Rightarrow> start_result \<times> session" where
  "start em s =
     (if status s \<noteq> stopped then (Returned, s)
      else
        (let s1 = s\<lparr> status := starting \<rparr>;
             s2 = (if process s1 \<noteq> None then end_mpv s1 else s1)
         in (Awaiting, spawn s2)))"

definition start_connected :: "bool \<Rightarrow> session \<Rightarrow> session" where
  "start_connected em s =
     (let s1 = ready s;
          s2 = s1\<lparr> status := STARTED \<rparr>;
          s3 = (if em then emit EmittedRestarted s2 else s2)
      in s3\<lparr> process := map_option (\<lambda>q. q\<lparr> listeners := listeners q @ [OnClose] \<rparr>) (process s3) \<rparr>)"

definition start_failed :: "js_error \<Rightarrow> session \<Rightarrow> js_error \<times> session" where
  "start_failed e s = (e, s\<lparr> status := ERRORED \<rparr>)"

text \<open>
  The listener that \<^verbatim>\<open>start\<close> puts on the child's \<^verbatim>\<open>"close"\<close>:
  \<^verbatim>\<open>() => { mpv.status = MPV_STATUS.STARTED; start(true).catch((e) => mpv.emit("error", e)); }\<close>
\<close>

definition close_listener :: "session \<Rightarrow> start_result \<times> session" where
  "close_listener s = start True (s\<lparr> status := STARTED \<rparr>)"

text \<open>The \<^verbatim>\<open>.catch\<close> of that call, when the restart fails.\<close>

definition restart_failed :: "js_error \<Rightarrow> session \<Rightarrow> session" where
  "restart_failed e s =
     (case start_failed e s of
        (e1, s1) \<Rightarrow> (case emit_error e1 s1 of Inl e2 \<Rightarrow> s1 | Inr s2 \<Rightarrow> s2))"

text \<open>
  The child has exited and emits \<^verbatim>\<open>"close"\<close>. Its listeners run in the order in which they
  were attached: the \<^verbatim>\<open>once\<close> listener of line 156, which is taken off as it runs and
  rejects the promise that \<^verbatim>\<open>start\<close> awaits, and the listener of line 167. The rejection
  has an effect only while \<^verbatim>\<open>start\<close> is suspended at its \<^verbatim>\<open>await\<close>, which is while the status
  is \<^verbatim>\<open>starting\<close>; the \<^verbatim>\<open>catch\<close> block of \<^verbatim>\<open>start\<close> then runs as a microtask, after the
  listeners. The result is that of the call of \<^verbatim>\<open>start\<close> in the second listener.
\<close>

definition process_close :: "session \<Rightarrow> start_result \<times> session" where
  "process_close s =
     (case process s of
        None \<Rightarrow> (Returned, s)
      | Some p \<Rightarrow>
         (let s1 = s\<lparr> process := Some (p\<lparr> exited := True,
                                            listeners := remove1 OnceClose (listeners p) \<rparr>) \<rparr>;
              (r, s2) = (if OnClose \<in> set (listeners p) then close_listener s1
                         else (Returned, s1));
              s3 = (if OnceClose \<in> set (listeners p) \<and> status s = starting
                    then snd (start_failed ProcessClosed s2) else s2)
          in (r, s3)))"

subsection \<open>The connection manager\<close>

text \<open>
  \<^verbatim>\<open>async function connect({ connectStart, timeout })\<close> and its two listeners, over the
  variables of one call: the two parameters, \<^verbatim>\<open>let error\<close>, the promise, the number of
  calls of \<^verbatim>\<open>socket.connect\<close>, and the delays of the timers that \<^verbatim>\<open>setTimeout\<close> has set.
  The clock \<^verbatim>\<open>process.hrtime.bigint()\<close> counts nanoseconds. \<^verbatim>\<open>start\<close> calls \<^verbatim>\<open>connect()\<close>
  without arguments, so both parameters take their defaults there.
\<close>

record connecting =
  connectStart :: int
  timeout :: int
  error :: "js_error option"
  promise :: "settled option"
  connects :: nat
  timers :: "nat list"

definition millis :: "nat \<Rightarrow> int" where
  "millis hrtime = int (hrtime div 1000000)"

definition connect :: "int option \<Rightarrow> int option \<Rightarrow> nat \<Rightarrow> string option \<Rightarrow> connecting" where
  "connect connectStart_arg timeout_arg hrtime socketPath =
     (let c = \<lparr> connectStart = (case connectStart_arg of None \<Rightarrow> millis hrtime | Some t \<Rightarrow> t),
                timeout = (case timeout_arg of None \<Rightarrow> 5000 | Some t \<Rightarrow> t),
                error = None, promise = None, connects = 0, timers = [] \<rparr>
      in if socketPath = None \<or> socketPath = Some []
         then c\<lparr> promise := Some (Broken (AssertionError ''Invalid socket path.'')) \<rparr>
         else c\<lparr> connects := 1 \<rparr>)"

text \<open>\<^verbatim>\<open>function errored(e) { error = e; }\<close>\<close>

definition errored :: "js_error \<Rightarrow> connecting \<Rightarrow> connecting" where
  "errored e c = c\<lparr> error := Some e \<rparr>"

text \<open>
  \<^verbatim>\<open>function close() { process.hrtime.bigint() / 1000000n - connectStart > timeout\<close>
  \<^verbatim>\<open>  ? reject(error || new Error("Timed out")) : setTimeout(() => socket.connect(socketPath), 20); }\<close>
\<close>

definition close :: "nat \<Rightarrow> connecting \<Rightarrow> connecting" where
  "close hrtime c =
     (if millis hrtime - connectStart c > timeout c
      then c\<lparr> promise := Some (Broken (case error c of Some e \<Rightarrow> e | None \<Rightarrow> TimedOut)) \<rparr>
      else c\<lparr> timers := timers c @ [20] \<rparr>)"

text \<open>
  What the socket and the timers do to a call of \<^verbatim>\<open>connect\<close>. \<^verbatim>\<open>promise.finally\<close> takes the
  three listeners off once the promise is settled; a timer that was set still fires.
\<close>

datatype socket_event = SockReady | SockError js_error | SockClose nat | TimerFired

fun connect_step :: "socket_event \<Rightarrow> connecting \<Rightarrow> connecting" where
  "connect_step TimerFired c =
     (case timers c of [] \<Rightarrow> c | t # ts \<Rightarrow> c\<lparr> timers := ts, connects := connects c + 1 \<rparr>)"
| "connect_step SockReady c =
     (if promise c = None then c\<lparr> promise := Some (Fulfilled JUndefined) \<rparr> else c)"
| "connect_step (SockError e) c = (if promise c = None then errored e c else c)"
| "connect_step (SockClose hrtime) c = (if promise c = None then close hrtime c else c)"

definition connect_run :: "socket_event list \<Rightarrow> connecting \<Rightarrow> connecting" where
  "connect_run evs c = fold connect_step evs c"

subsection \<open>The arguments of the child\<close>

text \<open>
  The first statements of \<^verbatim>\<open>Mpv\<close> work on arrays, which are objects: the caller's array
  and the copy that \<^verbatim>\<open>slice(0)\<close> makes. The store is the list of all arrays, an address is
  an index into it, and a new array goes to the end.
\<close>

type_synonym store = "string list list"

definition socketArg :: string where
  "socketArg = ''--input-ipc-server''"

text \<open>\<^verbatim>\<open>function randomPath()\<close>; \<open>rnd\<close> is \<^verbatim>\<open>Math.random().toString(36).slice(2)\<close>.\<close>

definition randomPath :: "bool \<Rightarrow> string \<Rightarrow> string" where
  "randomPath win32 rnd =
     socketArg @ ''='' @
     (if win32 then [CHR 0x5C, CHR 0x5C, CHR ''.'', CHR 0x5C] @ ''pipe'' @ [CHR 0x5C] @ ''mpvsocket''
      else ''/tmp/mpvsocket'') @ rnd"

definition defaults :: "bool \<Rightarrow> string \<Rightarrow> string list" where
  "defaults win32 rnd =
     [randomPath win32 rnd, ''--audio-fallback-to-null=yes'', ''--no-config'', ''--idle'',
      ''--msg-level=all=warn'']"

definition startsWith :: "string \<Rightarrow> string \<Rightarrow> bool" where
  "startsWith x p = (take (length p) x = p)"

text \<open>\<^verbatim>\<open>a.split("=")[0]\<close>\<close>

definition option_key :: "string \<Rightarrow> string" where
  "option_key a = takeWhile (\<lambda>c. c \<noteq> CHR ''='') a"

text \<open>\<^verbatim>\<open>args.some((x) => x.startsWith(a.split("=")[0])) || args.push(a)\<close>, on the array at
  address \<open>r\<close>.\<close>

definition add_default :: "nat \<Rightarrow> string \<Rightarrow> store \<Rightarrow> store" where
  "add_default r a h =
     (if list_ex (\<lambda>x. startsWith x (option_key a)) (h ! r) then h
      else h[r := h ! r @ [a]])"

text \<open>
  \<^verbatim>\<open>args = (args || []).slice(0); defaults.forEach(...)\<close>. The parameter is the address of
  the caller's array, or \<open>None\<close> when the caller gave none; the result is the store and the
  address that the variable \<^verbatim>\<open>args\<close> holds afterwards.
\<close>

definition Mpv_args :: "store \<Rightarrow> nat option \<Rightarrow> bool \<Rightarrow> string \<Rightarrow> store \<times> nat" where
  "Mpv_args h args_arg win32 rnd =
     (let (h1, a) = (case args_arg of None \<Rightarrow> (h @ [[]], length h) | Some a \<Rightarrow> (h, a));
          r = length h1;
          h2 = h1 @ [h1 ! a]
      in (fold (add_default r) (defaults win32 rnd) h2, r))"

text \<open>\<^verbatim>\<open>args.find((x) => x.startsWith(socketArg))?.slice(socketArg.length + 1)\<close>\<close>

definition socketPath :: "string list \<Rightarrow> string option" where
  "socketPath as =
     map_option (drop (length socketArg + 1)) (find (\<lambda>x. startsWith x socketArg) as)"

subsection \<open>A session as a sequence of events\<close>

text \<open>
  What can happen to a session, one event at a time: the calls of the public functions,
  the socket changing its \<^verbatim>\<open>readyState\<close>, a chunk of parsed frames arriving, the promise
  awaited by \<^verbatim>\<open>start\<close> being settled, the socket reporting an error, the child closing,
  and the caller attaching a listener of \<^verbatim>\<open>"error"\<close> to \<^verbatim>\<open>mpv\<close> or taking one off.
\<close>

datatype event =
    Command "jsval list"
  | Observe string callback
  | Unobserve string callback
  | Inbound "jsval list"
  | Socket ready_state
  | Start bool
  | Connected bool
  | ConnectFailed js_error
  | SocketFailed
  | ProcessClosed_ev
  | End
  | OnError
  | OffError

fun step :: "event \<Rightarrow> session \<Rightarrow> session" where
  "step (Command as) s = snd (command as s)"
| "step (Observe x fn) s = snd (observe x fn s)"
| "step (Unobserve x fn) s = snd (unobserve x fn s)"
| "step (Inbound xs) s = snd (deliver xs s)"
| "step (Socket r) s = s\<lparr> readyState := r \<rparr>"
| "step (Start em) s = snd (start em s)"
| "step (Connected em) s = start_connected em s"
| "step (ConnectFailed e) s = snd (start_failed e s)"
| "step SocketFailed s = error_listener s"
| "step ProcessClosed_ev s = snd (process_close s)"
| "step End s = end_mpv s"
| "step OnError s = s\<lparr> error_listeners := error_listeners s + 1 \<rparr>"
| "step OffError s = s\<lparr> error_listeners := error_listeners s - 1 \<rparr>"

definition run :: "event list \<Rightarrow> session \<Rightarrow> session" where
  "run evs s = fold step evs s"

text \<open>Calls of \<^verbatim>\<open>command\<close> one after the other, with the ids they were given.\<close>

fun commands :: "jsval list list \<Rightarrow> session \<Rightarrow> nat list \<times> session" where
  "commands [] s = ([], s)"
| "commands (as # rest) s =
     (let (i, s1) = command as s; (is, s2) = commands rest s1 in (i # is, s2))"

subsection \<open>Notions used in the statements\<close>

text \<open>\<^verbatim>\<open>requests.set(request.id, request)\<close> for a list of requests.\<close>

definition stored :: "request list \<Rightarrow> (nat \<times> request) list \<Rightarrow> (nat \<times> request) list" where
  "stored rs m = fold (\<lambda>r. AList.update (ident r) r) rs m"

text \<open>The reply frames of the player.\<close>

definition success_reply :: "nat \<Rightarrow> jsval \<Rightarrow> jsval" where
  "success_reply i d =
     JObj [(''request_id'', JNum (int i)), (''error'', JStr ''success''), (''data'', d)]"

definition error_reply :: "nat \<Rightarrow> string \<Rightarrow> jsval" where
  "error_reply i e = JObj [(''request_id'', JNum (int i)), (''error'', JStr e)]"

definition property_change :: "string \<Rightarrow> jsval \<Rightarrow> jsval" where
  "property_change x d =
     JObj [(''event'', JStr ''property-change''), (''name'', JStr x), (''data'', d)]"

text \<open>The last error that the socket reported in a sequence of events.\<close>

fun last_error :: "socket_event list \<Rightarrow> js_error option" where
  "last_error [] = None"
| "last_error (ev # evs) =
     (case last_error evs of
        Some e \<Rightarrow> Some e
      | None \<Rightarrow> (case ev of SockError e \<Rightarrow> Some e | _ \<Rightarrow> None))"

text \<open>
  The part of the session that the request ids live in, and what holds of it in every
  session that starts from \<open>init\<close>: the history of ids counts from 1 without a gap, every
  entry of \<^verbatim>\<open>requests\<close> is stored under its own id, and the ids of \<^verbatim>\<open>requests\<close> and
  \<^verbatim>\<open>queue\<close> are different from each other and have all been given out.
\<close>

definition core :: "session \<Rightarrow> nat list \<times> nat \<times> (nat \<times> request) list \<times> request list" where
  "core s = (issued s, requestId s, requests s, queue s)"

definition ids_ok :: "session \<Rightarrow> bool" where
  "ids_ok s \<longleftrightarrow>
     issued s = [1 ..< Suc (requestId s)] \<and>
     distinct (map fst (requests s)) \<and>
     distinct (map ident (queue s)) \<and>
     fst ` set (requests s) \<inter> ident ` set (queue s) = {} \<and>
     (\<forall>(k, r) \<in> set (requests s). ident r = k \<and> 0 < k \<and> k \<le> requestId s) \<and>
     (\<forall>r \<in> set (queue s). 0 < ident r \<and> ident r \<le> requestId s)"

text \<open>
  The events that settle the promise which \<open>start\<close> awaits. They can occur only while a
  call of \<open>start\<close> is suspended at its \<^verbatim>\<open>await\<close>.
\<close>

definition settles :: "event \<Rightarrow> bool" where
  "settles ev = (case ev of Connected em \<Rightarrow> True | ConnectFailed e \<Rightarrow> True | _ \<Rightarrow> False)"

text \<open>The \<^verbatim>\<open>request_id\<close> of a message.\<close>

fun msg_id :: "message \<Rightarrow> nat" where
  "msg_id (Message i as) = i"

text \<open>
  What the writes and the queue depend on, and what holds of it once \<^verbatim>\<open>Mpv()\<close> has
  returned: the status is \<^verbatim>\<open>started\<close>, the queue is in the order of the ids, no two
  messages that were written carry the same id, and none carries the id of a queued
  request.
\<close>

definition wire :: "session \<Rightarrow> MPV_STATUS \<times> ready_state \<times> message list \<times> request list \<times> nat" where
  "wire s = (status s, readyState s, written s, queue s, requestId s)"

definition parked :: "session \<Rightarrow> bool" where
  "parked s \<longleftrightarrow>
     status s = STARTED \<and>
     sorted_wrt (<) (map ident (queue s)) \<and>
     distinct (map msg_id (written s)) \<and>
     (\<forall>r \<in> set (queue s). ident r \<le> requestId s \<and> msg_id (message r) = ident r) \<and>
     (\<forall>m \<in> set (written s). msg_id m \<le> requestId s \<and> msg_id m \<notin> ident ` set (queue s))"

subsection \<open>Sample sessions\<close>

definition pause_cmd :: "jsval list" where
  "pause_cmd = [JStr ''set_property'', JStr ''pause'', JBool True]"

definition volume_cmd :: "jsval list" where
  "volume_cmd = [JStr ''get_property'', JStr ''volume'']"

text \<open>The session after \<^verbatim>\<open>Mpv()\<close> has returned: the child is spawned, the socket is open,
  \<^verbatim>\<open>start\<close> has run to its end.\<close>

definition started :: session where
  "started = run [Start False, Socket Open, Connected False] init"

text \<open>Two commands are in flight.\<close>

definition two_pending :: session where
  "two_pending = run [Command volume_cmd, Command pause_cmd] started"

text \<open>A command is written, the socket closes before the reply, a second command is
  issued, and the child exits.\<close>

definition disconnected :: session where
  "disconnected =
     run [Command pause_cmd, Socket Closed, Command volume_cmd, ProcessClosed_ev] started"

text \<open>The socket closes and two commands are issued.\<close>

definition offline :: session where
  "offline = run [Socket Closed, Command pause_cmd, Command volume_cmd] started"

text \<open>The reply of the player to \<^verbatim>\<open>observe_property\<close>: \<^verbatim>\<open>{"request_id":i,"error":"success"}\<close>.\<close>

definition ack :: "nat \<Rightarrow> jsval" where
  "ack i = JObj [(''request_id'', JNum (int i)), (''error'', JStr ''success'')]"

text \<open>\<^verbatim>\<open>observe("volume", cb1)\<close> and \<^verbatim>\<open>observe("volume", cb2)\<close> are called one after the other,
  before the reply to the first arrives; then both replies arrive.\<close>

definition observed_twice :: session where
  "observed_twice = run [Observe ''volume'' 1, Observe ''volume'' 2, Inbound [ack 1], Inbound [ack 2]] started"

text \<open>\<^verbatim>\<open>observe("volume", cb1)\<close> is called and its reply has arrived.\<close>

definition observed_once :: session where
  "observed_once = run [Observe ''volume'' 1, Inbound [ack 1]] started"

text \<open>
  Three lines of input, and a function that agrees with \<^verbatim>\<open>JSON.parse\<close> on them: the first
  and the third are objects, the second is cut off and is a \<^verbatim>\<open>SyntaxError\<close>.
\<close>

definition line_pause :: string where \<open>line_pause = ''{"event":"pause"}''\<close>
definition line_cut :: string where \<open>line_cut = ''{"event":''\<close>
definition line_unpause :: string where \<open>line_unpause = ''{"event":"unpause"}''\<close>

definition sample_parse :: "string \<Rightarrow> jsval option" where
  "sample_parse l =
     (if l = line_pause then Some (JObj [(''event'', JStr ''pause'')])
      else if l = line_unpause then Some (JObj [(''event'', JStr ''unpause'')])
      else None)"

definition good_chunk :: string where
  "good_chunk = line_pause @ [CR, LF] @ line_unpause @ [LF]"

definition bad_chunk :: string where
  "bad_chunk = line_pause @ [LF] @ line_cut @ [LF] @ line_unpause @ [LF]"

text \<open>
  An event that leaves a pending call of \<^verbatim>\<open>connect\<close> pending: an error, a timer, or a
  \<^verbatim>\<open>"close"\<close> within the timeout. \<open>is_close\<close> picks the \<^verbatim>\<open>"close"\<close> events.
\<close>

definition early :: "connecting \<Rightarrow> socket_event \<Rightarrow> bool" where
  "early c ev =
     (case ev of
        SockClose hrtime \<Rightarrow> millis hrtime - connectStart c \<le> timeout c
      | SockReady \<Rightarrow> False
      | _ \<Rightarrow> True)"

definition is_close :: "socket_event \<Rightarrow> bool" where
  "is_close ev = (case ev of SockClose hrtime \<Rightarrow> True | _ \<Rightarrow> False)"

text \<open>Rounds of a failed attempt: the socket closes at the given time and the timer of the
  retry fires.\<close>

definition retry_rounds :: "nat list \<Rightarrow> socket_event list" where
  "retry_rounds hs = concat (map (\<lambda>hrtime. [SockClose hrtime, TimerFired]) hs)"

text \<open>The socket file is not there yet: an error and a \<^verbatim>\<open>"close"\<close> 20 ms after the call, and
  the timer of the retry.\<close>

definition first_tries :: "socket_event list" where
  "first_tries = [SockError (SocketError ''ENOENT''), SockClose 30000000, TimerFired]"


section \<open>Properties\<close>

subsection \<open>Lemmas\<close>

lemmas eval_defs = run_def init_def command_def write_def mk_request_def Let_def
  ready_def observe_property_def stored_def

lemma fold_write:
  "fold write rs s = s\<lparr> written := written s @ map message rs, requests := stored rs (requests s) \<rparr>"
  by (induction rs arbitrary: s) (simp_all add: write_def stored_def)

lemma fold_write_entries:
  "fold (\<lambda>(k, request) t. write request t) m s = fold write (map snd m) s"
  by (induction m arbitrary: s) (simp_all add: case_prod_beta)

lemma handle_success_reply:
  "map_of (requests s) i = Some r \<Longrightarrow>
   handle (success_reply i d) s = Inr (matched i r (success_reply i d) s)"
  by (simp add: handle_def success_reply_def)

lemma handle_error_reply:
  "map_of (requests s) i = Some r \<Longrightarrow>
   handle (error_reply i e) s = Inr (matched i r (error_reply i e) s)"
  by (simp add: handle_def error_reply_def)

lemma effects_matched_success:
  "effects (matched i r (success_reply i d) s) = effects s @ [Resolved r d]"
  by (simp add: matched_def success_reply_def settle_def emit_def Let_def split: option.splits)

lemma effects_matched_error:
  "e \<noteq> ''success'' \<Longrightarrow>
   effects (matched i r (error_reply i e) s) = effects s @ [Rejected r (CommandFailed (args r) (JStr e))]"
  by (simp add: matched_def error_reply_def settle_def emit_def Let_def split: option.splits)

lemma ids_ok_core: "core t = core s \<Longrightarrow> ids_ok s \<Longrightarrow> ids_ok t"
  by (simp add: core_def ids_ok_def)

lemma update_fresh: "k \<notin> fst ` set al \<Longrightarrow> AList.update k v al = al @ [(k, v)]"
  by (induction al) auto

lemma ids_ok_init: "ids_ok init"
  by (simp add: ids_ok_def init_def)

lemma ids_ok_command: 
  assumes "ids_ok s" shows "ids_ok (snd (command as s))"
proof -
  let ?k = "Suc (requestId s)"
  have fresh: "?k \<notin> fst ` set (requests s)" using assms by (fastforce simp: ids_ok_def)
  have freshq: "?k \<notin> ident ` set (queue s)" using assms by (fastforce simp: ids_ok_def)
  show ?thesis
  proof (cases "readyState s = Open")
    case True
    then have eq: "snd (command as s) = s\<lparr> requestId := ?k, issued := issued s @ [?k],
        written := written s @ [message (mk_request ?k as)],
        requests := requests s @ [(?k, mk_request ?k as)] \<rparr>"
      by (simp add: command_def Let_def write_def mk_request_def update_fresh [OF fresh])
    show ?thesis unfolding eq using assms fresh freshq
      by (auto simp: ids_ok_def mk_request_def)
  next
    case False
    then have eq: "snd (command as s) = s\<lparr> requestId := ?k, issued := issued s @ [?k],
        queue := queue s @ [mk_request ?k as] \<rparr>"
      by (simp add: command_def Let_def)
    show ?thesis unfolding eq using assms fresh freshq
      by (auto simp: ids_ok_def mk_request_def)
  qed
qed

lemma core_emit [simp]: "core (emit e s) = core s"
  by (simp add: core_def emit_def)

lemma core_settle [simp]: "core (settle r v s) = core s"
  by (simp add: core_def settle_def emit_def Let_def split: option.splits)

lemma core_emit_error: "emit_error e s = Inr t \<Longrightarrow> core t = core s"
  by (auto simp: emit_error_def split: if_splits)

lemma core_emit_event: "emit_event n x s = Inr t \<Longrightarrow> core t = core s"
  by (auto simp: emit_event_def split: if_splits)

lemma core_unmatched: "unmatched x s = Inr t \<Longrightarrow> core t = core s"
  by (auto simp: unmatched_def core_emit_error split: if_splits)

lemma core_fold_emit [simp]: "core (fold (\<lambda>fn t. emit (f fn) t) xs s) = core s"
  by (induction xs arbitrary: s) simp_all

lemma ids_ok_delete:
  assumes "ids_ok s" shows "ids_ok (s\<lparr> requests := AList.delete i (requests s) \<rparr>)"
proof -
  have sub: "set (AList.delete i (requests s)) \<subseteq> set (requests s)"
    by (auto simp: AList.delete_eq)
  have "distinct (map fst (AList.delete i (requests s)))"
    using assms by (simp add: ids_ok_def distinct_delete)
  moreover have "fst ` set (AList.delete i (requests s)) \<inter> ident ` set (queue s) = {}"
    using assms sub by (auto simp: ids_ok_def)
  moreover have "\<forall>(k, r) \<in> set (AList.delete i (requests s)). ident r = k \<and> 0 < k \<and> k \<le> requestId s"
    using assms sub by (auto simp: ids_ok_def)
  ultimately show ?thesis using assms by (simp add: ids_ok_def)
qed

lemma ids_ok_matched: "ids_ok s \<Longrightarrow> ids_ok (matched i r x s)"
proof -
  assume ok: "ids_ok s"
  have "core (matched i r x s) = core (s\<lparr> requests := AList.delete i (requests s) \<rparr>)"
    by (simp add: matched_def Let_def)
  then show ?thesis by (rule ids_ok_core) (rule ids_ok_delete [OF ok])
qed

lemma handle_cases:
  "handle x s = Inr t \<Longrightarrow> core t = core s \<or> (\<exists>i r. t = matched i r x s)"
  unfolding handle_def
  by (simp split: if_splits option.splits) (auto dest: core_emit_event core_unmatched)

lemma ids_ok_handle: "ids_ok s \<Longrightarrow> handle x s = Inr t \<Longrightarrow> ids_ok t"
  using handle_cases [of x s t] ids_ok_matched ids_ok_core by blast

lemma ids_ok_handle_all: "ids_ok s \<Longrightarrow> ids_ok (snd (handle_all xs s))"
proof (induction xs arbitrary: s)
  case Nil
  then show ?case by simp
next
  case (Cons x xs)
  show ?case
  proof (cases "handle x s")
    case (Inl e)
    then show ?thesis using Cons.prems by simp
  next
    case (Inr t)
    then show ?thesis using Cons.IH [OF ids_ok_handle [OF Cons.prems Inr]] by simp
  qed
qed

lemma core_run_microtask [simp]: "core (run_microtask m s) = core s"
  by (cases "(m, s)" rule: run_microtask.cases)
     (simp_all add: core_def emit_def emit_error_def)

lemma core_fold_microtask [simp]: "core (fold run_microtask ms s) = core s"
  by (induction ms arbitrary: s) simp_all

lemma core_drain [simp]: "core (drain s) = core s"
  by (simp add: drain_def) (simp add: core_def)

lemma ids_ok_deliver: "ids_ok s \<Longrightarrow> ids_ok (snd (deliver xs s))"
proof -
  assume ok: "ids_ok s"
  obtain e t where h: "handle_all xs s = (e, t)" by (cases "handle_all xs s")
  have t: "ids_ok t" using ids_ok_handle_all [OF ok, of xs] by (simp add: h)
  show ?thesis
  proof (cases e)
    case None
    have "ids_ok (drain t)" by (rule ids_ok_core [OF _ t]) simp
    then show ?thesis by (simp add: deliver_def h None)
  next
    case (Some a)
    then show ?thesis using t by (simp add: deliver_def h)
  qed
qed

lemma ids_ok_observe: "ids_ok s \<Longrightarrow> ids_ok (snd (observe x fn s))"
proof -
  assume ok: "ids_ok s"
  let ?s1 = "s\<lparr> observeId := Suc (observeId s) \<rparr>"
  have a: "ids_ok ?s1"
    by (rule ids_ok_core [OF _ ok]) (simp add: core_def)
  obtain p s2 where c: "command (observe_property (Suc (observeId s)) x) ?s1 = (p, s2)"
    by (cases "command (observe_property (Suc (observeId s)) x) ?s1")
  have s2: "ids_ok s2" using ids_ok_command [OF a, of "observe_property (Suc (observeId s)) x"]
    by (simp add: c)
  show ?thesis
  proof (cases "map_of (observers s) x \<noteq> None")
    case True
    then show ?thesis using ok by (simp add: observe_def)
  next
    case False
    have "ids_ok (s2\<lparr> reactions := AList.update p (StoreObserver x (Suc (observeId s)) fn) (reactions s2),
                 observer_props := AList.update x p (observer_props s2) \<rparr>)"
      by (rule ids_ok_core [OF _ s2]) (simp add: core_def)
    then show ?thesis using False by (simp add: observe_def Let_def c)
  qed
qed

lemma ids_ok_unobserve: "ids_ok s \<Longrightarrow> ids_ok (snd (unobserve x fn s))"
proof -
  assume ok: "ids_ok s"
  show ?thesis
  proof (cases "map_of (observers s) x")
    case None
    then show ?thesis using ok by (simp add: unobserve_def)
  next
    case (Some ob)
    let ?ob1 = "ob\<lparr> fns := removeAll fn (fns ob) \<rparr>"
    let ?s1 = "s\<lparr> observers := AList.update x ?ob1 (observers s) \<rparr>"
    let ?s2 = "s\<lparr> observers := AList.delete x (AList.update x ?ob1 (observers s)) \<rparr>"
    have s1: "ids_ok ?s1" by (rule ids_ok_core [OF _ ok]) (simp add: core_def)
    have s2: "ids_ok ?s2" by (rule ids_ok_core [OF _ ok]) (simp add: core_def)
    obtain p s3 where c: "command (unobserve_property (obs_id ob)) ?s2 = (p, s3)"
      by (cases "command (unobserve_property (obs_id ob)) ?s2")
    have s3: "ids_ok s3" using ids_ok_command [OF s2, of "unobserve_property (obs_id ob)"]
      by (simp add: c)
    have s4: "ids_ok (s3\<lparr> reactions := AList.update p EmitOnReject (reactions s3) \<rparr>)"
      by (rule ids_ok_core [OF _ s3]) (simp add: core_def)
    show ?thesis
    proof (cases "removeAll fn (fns ob) = []")
      case True
      then show ?thesis using s4 c by (simp add: unobserve_def Some Let_def)
    next
      case False
      then show ?thesis using s1 by (simp add: unobserve_def Some Let_def)
    qed
  qed
qed

lemma ids_ok_replay:
  "ids_ok s \<Longrightarrow> ids_ok (fold (\<lambda>(x, ob) t. snd (command (observe_property (obs_id ob) x) t)) obs s)"
  by (induction obs arbitrary: s) (auto intro: ids_ok_command)

lemma map_of_entry: "distinct (map fst m) \<Longrightarrow> (k, v) \<in> set m \<Longrightarrow> map_of m k = Some v"
  by simp

lemma stored_known:
  "\<forall>r \<in> set rs. map_of m (ident r) = Some r \<Longrightarrow> stored rs m = m"
  by (induction rs) (simp_all add: stored_def update_triv)

lemma ids_ok_write_queue:
  assumes "ids_ok s"
  shows "ids_ok (s\<lparr> requests := stored (queue s) (requests s), queue := [] \<rparr>)"
  using assms
proof (induction "queue s" arbitrary: s)
  case Nil
  then show ?case by (simp add: stored_def ids_ok_def)
next
  case (Cons r q)
  let ?t = "s\<lparr> requests := requests s @ [(ident r, r)], queue := q \<rparr>"
  have qs: "queue s = r # q" using Cons.hyps(2) by simp
  have fresh: "ident r \<notin> fst ` set (requests s)"
    using Cons.prems by (auto simp: ids_ok_def qs)
  have t: "ids_ok ?t" using Cons.prems fresh by (auto simp: ids_ok_def qs)
  have "ids_ok (?t\<lparr> requests := stored (queue ?t) (requests ?t), queue := [] \<rparr>)"
    by (rule Cons.hyps(1) [OF _ t]) simp
  then show ?case by (simp add: qs stored_def update_fresh [OF fresh])
qed

lemma ids_ok_ready: assumes "ids_ok s" shows "ids_ok (ready s)"
proof -
  let ?s1 = "fold (\<lambda>(x, ob) t. snd (command (observe_property (obs_id ob) x) t)) (observers s) s"
  have s1: "ids_ok ?s1" by (rule ids_ok_replay [OF assms])
  have known: "\<forall>r \<in> set (map snd (requests ?s1)). map_of (requests ?s1) (ident r) = Some r"
    using s1 by (fastforce simp: ids_ok_def)
  have same: "stored (map snd (requests ?s1)) (requests ?s1) = requests ?s1"
    by (rule stored_known [OF known])
  let ?s2 = "fold (\<lambda>(k, request) t. write request t) (requests ?s1) ?s1"
  have s2: "ids_ok ?s2"
    by (rule ids_ok_core [OF _ s1]) (simp add: fold_write_entries fold_write same core_def)
  have q2: "queue ?s2 = queue ?s1" and r2: "requests ?s2 = requests ?s1"
    by (simp_all add: fold_write_entries fold_write same)
  have "ids_ok (?s2\<lparr> requests := stored (queue ?s2) (requests ?s2), queue := [] \<rparr>)"
    by (rule ids_ok_write_queue [OF s2])
  moreover have "core (ready s) = core (?s2\<lparr> requests := stored (queue ?s2) (requests ?s2), queue := [] \<rparr>)"
    unfolding ready_def Let_def by (simp add: fold_write core_def)
  ultimately show ?thesis by (rule ids_ok_core [rotated])
qed

lemma core_kill [simp]: "core (kill s) = core s"
  by (simp add: kill_def core_def split: option.splits)

lemma core_end_mpv [simp]: "core (end_mpv s) = core s"
proof (cases "process s")
  case None
  then show ?thesis by (simp add: end_mpv_def)
next
  case (Some p)
  have "core (kill (s\<lparr> process := Some (p\<lparr> listeners := [] \<rparr>) \<rparr>)) = core s"
    by (simp add: core_kill) (simp add: core_def)
  then show ?thesis by (simp add: end_mpv_def Some Let_def core_def)
qed

lemma core_start [simp]: "core (snd (start em s)) = core s"
proof -
  show ?thesis
    using core_end_mpv [of "s\<lparr> status := starting \<rparr>"]
    by (simp add: start_def Let_def spawn_def core_def)
qed

lemma core_process_close [simp]: "core (snd (process_close s)) = core s"
proof -
  show ?thesis
    by (simp add: process_close_def close_listener_def start_def start_failed_def Let_def
        core_def split: option.splits)
qed

lemma ids_ok_start_connected: assumes "ids_ok s" shows "ids_ok (start_connected em s)"
proof -
  have "core (start_connected em s) = core (ready s)"
    by (simp add: start_connected_def Let_def core_def emit_def)
  then show ?thesis by (rule ids_ok_core) (rule ids_ok_ready [OF assms])
qed

lemma ids_ok_step: assumes "ids_ok s" shows "ids_ok (step ev s)"
proof (cases ev)
  case (Command as)
  then show ?thesis using ids_ok_command [OF assms] by simp
next
  case (Observe x fn)
  then show ?thesis using ids_ok_observe [OF assms] by simp
next
  case (Unobserve x fn)
  then show ?thesis using ids_ok_unobserve [OF assms] by simp
next
  case (Inbound xs)
  then show ?thesis using ids_ok_deliver [OF assms] by simp
next
  case (Socket r)
  then show ?thesis using assms by (simp add: ids_ok_def)
next
  case (Start em)
  then show ?thesis using ids_ok_core [OF core_start assms] by simp
next
  case (Connected em)
  then show ?thesis using ids_ok_start_connected [OF assms] by simp
next
  case (ConnectFailed e)
  then show ?thesis using assms by (simp add: start_failed_def ids_ok_def)
next
  case SocketFailed
  have "core (error_listener s) = core s" by (simp add: error_listener_def)
  then show ?thesis using SocketFailed ids_ok_core [OF _ assms] by simp
next
  case ProcessClosed_ev
  then show ?thesis using ids_ok_core [OF core_process_close assms] by simp
next
  case End
  then show ?thesis using ids_ok_core [OF core_end_mpv assms] by simp
next
  case OnError
  then show ?thesis using assms by (simp add: ids_ok_def)
next
  case OffError
  then show ?thesis using assms by (simp add: ids_ok_def)
qed

lemma ids_ok_run: "ids_ok s \<Longrightarrow> ids_ok (run evs s)"
  unfolding run_def by (induction evs arbitrary: s) (simp_all add: ids_ok_step)

lemma command_id: "fst (command as s) = requestId s + 1"
  by (simp add: command_def Let_def)

lemma command_requestId: "requestId (snd (command as s)) = requestId s + 1"
  by (simp add: command_def Let_def write_def)

lemma command_issued: "issued (snd (command as s)) = issued s @ [requestId s + 1]"
  by (simp add: command_def Let_def write_def)

lemma fst_commands: "fst (commands cs s) = [requestId s + 1 ..< requestId s + 1 + length cs]"
proof (induction cs arbitrary: s)
  case Nil
  then show ?case by simp
next
  case (Cons a cs)
  have "[Suc (requestId s) ..< Suc (Suc (requestId s + length cs))]
        = Suc (requestId s) # [Suc (Suc (requestId s)) ..< Suc (Suc (requestId s + length cs))]"
    by (rule upt_conv_Cons) simp
  then show ?case
    using Cons.IH [of "snd (command a s)"] command_id [of a s] command_requestId [of a s]
    by (simp add: split_beta del: upt_Suc)
qed

lemmas sup_defs = start_def spawn_def start_connected_def end_mpv_def kill_def emit_def
  process_close_def close_listener_def

lemma started_eq:
  "started = init\<lparr> status := STARTED, readyState := Open, spawned := 1,
      process := Some \<lparr> pid = 1, killed = False, exited = False,
        listeners = [OnceError, OnceClose, OnClose], unrefd = False \<rparr> \<rparr>"
  by (simp add: started_def eval_defs sup_defs)

lemma close_listener_eq: "close_listener s = (Returned, s\<lparr> status := STARTED \<rparr>)"
  by (simp add: close_listener_def start_def)

lemmas disp_defs = deliver_def handle_def matched_def unmatched_def settle_def drain_def
  emit_error_def emit_event_def
  observe_def unobserve_def awaited_def ack_def property_change_def unobserve_property_def

lemma parse_all_None: "parse_all parse ls = None \<longleftrightarrow> (\<exists>l \<in> set ls. parse (trim l) = None)"
  by (induction ls) (auto split: option.splits)

lemma parse_all_Some:
  "\<forall>l \<in> set ls. parse (trim l) = Some (f l) \<Longrightarrow> parse_all parse ls = Some (map f ls)"
  by (induction ls) auto

lemma connect_step_params [simp]:
  "connectStart (connect_step ev c) = connectStart c" "timeout (connect_step ev c) = timeout c"
  by (cases ev; simp add: close_def errored_def split: list.splits)+

lemma early_step [simp]: "early (connect_step ev c) ev1 = early c ev1"
  by (cases ev1) (simp_all add: early_def)

lemma connect_run_Nil [simp]: "connect_run [] c = c"
  by (simp add: connect_run_def)

lemma connect_run_Cons [simp]: "connect_run (ev # evs) c = connect_run evs (connect_step ev c)"
  by (simp add: connect_run_def)

lemma settled_stays:
  "promise c = Some v \<Longrightarrow> promise (connect_run evs c) = Some v"
proof (induction evs arbitrary: c)
  case Nil
  then show ?case by simp
next
  case (Cons ev evs)
  have "promise (connect_step ev c) = Some v"
    using Cons.prems by (cases ev) (simp_all split: list.splits)
  then show ?case using Cons.IH by simp
qed

lemma rejected_after_late_close:
  assumes "promise c = None" and "promise (connect_run evs c) = Some (Broken e)"
  shows "\<exists>pre hrtime post. evs = pre @ SockClose hrtime # post
           \<and> millis hrtime - connectStart c > timeout c
           \<and> e = (case last_error pre of Some e1 \<Rightarrow> e1
                   | None \<Rightarrow> (case error c of Some e2 \<Rightarrow> e2 | None \<Rightarrow> TimedOut))"
  using assms
proof (induction evs arbitrary: c)
  case Nil
  then show ?case by simp
next
  case (Cons ev evs)
  show ?case
  proof (cases "promise (connect_step ev c)")
    case None
    from Cons.IH [OF None] Cons.prems(2)
    obtain pre hrtime post where split: "evs = pre @ SockClose hrtime # post"
      and late: "millis hrtime - connectStart c > timeout c"
      and e: "e = (case last_error pre of Some e1 \<Rightarrow> e1
                   | None \<Rightarrow> (case error (connect_step ev c) of Some e2 \<Rightarrow> e2 | None \<Rightarrow> TimedOut))"
      by auto
    have err: "(case last_error (ev # pre) of Some e1 \<Rightarrow> e1
                   | None \<Rightarrow> (case error c of Some e2 \<Rightarrow> e2 | None \<Rightarrow> TimedOut)) = e"
      using None Cons.prems(1) unfolding e
      by (cases ev) (auto simp: errored_def close_def split: option.splits list.splits if_splits)
    have "ev # evs = (ev # pre) @ SockClose hrtime # post" by (simp add: split)
    then show ?thesis using late err by blast
  next
    case (Some v)
    then have fin: "promise (connect_run evs (connect_step ev c)) = Some v"
      by (rule settled_stays)
    then have v: "v = Broken e" using Cons.prems(2) by simp
    from Some Cons.prems(1) v obtain hrtime where ev: "ev = SockClose hrtime"
      by (cases ev) (auto simp: errored_def split: list.splits if_splits)
    have late: "millis hrtime - connectStart c > timeout c"
      using Some Cons.prems(1) by (auto simp: ev close_def split: if_splits)
    have e: "e = (case error c of Some e2 \<Rightarrow> e2 | None \<Rightarrow> TimedOut)"
      using Some Cons.prems(1) v late by (auto simp: ev close_def)
    have "ev # evs = [] @ SockClose hrtime # evs" by (simp add: ev)
    then show ?thesis using late e by (metis last_error.simps(1) option.simps(4))
  qed
qed

lemma retries_while_early:
  assumes "promise c = None" and "\<forall>ev \<in> set evs. early c ev" and "set (timers c) \<subseteq> {20}"
  shows "promise (connect_run evs c) = None
         \<and> set (timers (connect_run evs c)) \<subseteq> {20}
         \<and> connects (connect_run evs c) + length (timers (connect_run evs c))
             = connects c + length (timers c) + length (filter is_close evs)"
  using assms
proof (induction evs arbitrary: c)
  case Nil
  then show ?case by simp
next
  case (Cons ev evs)
  let ?c = "connect_step ev c"
  have ev: "early c ev" using Cons.prems(2) by simp
  have p: "promise ?c = None"
    using Cons.prems(1) ev by (cases ev) (auto simp: early_def close_def errored_def split: list.splits)
  have e: "\<forall>ev \<in> set evs. early ?c ev" using Cons.prems(2) by simp
  have t: "set (timers ?c) \<subseteq> {20}"
    using Cons.prems(1,3) ev by (cases ev) (auto simp: early_def close_def errored_def split: list.splits)
  have n: "connects ?c + length (timers ?c)
           = connects c + length (timers c) + (if is_close ev then 1 else 0)"
    using Cons.prems(1) ev by (cases ev) (auto simp: early_def is_close_def close_def errored_def split: list.splits)
  show ?case using Cons.IH [OF p e t] n by simp
qed

lemma error_while_early:
  assumes "promise c = None" and "\<forall>ev \<in> set evs. early c ev"
  shows "error (connect_run evs c) = (case last_error evs of Some e \<Rightarrow> Some e | None \<Rightarrow> error c)"
  using assms
proof (induction evs arbitrary: c)
  case Nil
  then show ?case by simp
next
  case (Cons ev evs)
  let ?c = "connect_step ev c"
  have ev: "early c ev" using Cons.prems(2) by simp
  have p: "promise ?c = None"
    using Cons.prems(1) ev by (cases ev) (auto simp: early_def close_def errored_def split: list.splits)
  have e: "\<forall>ev \<in> set evs. early ?c ev" using Cons.prems(2) by simp
  have "error ?c = (case ev of SockError e \<Rightarrow> Some e | _ \<Rightarrow> error c)"
    using Cons.prems(1) ev by (cases ev) (auto simp: early_def close_def errored_def split: list.splits)
  then show ?case using Cons.IH [OF p e] by (auto split: option.splits socket_event.splits)
qed

lemma connect_run_snoc: "connect_run (evs @ [ev]) c = connect_step ev (connect_run evs c)"
  by (simp add: connect_run_def)

lemma pending_while_early:
  assumes "promise c = None" and "\<forall>ev \<in> set evs. early c ev"
  shows "promise (connect_run evs c) = None"
  using assms
proof (induction evs arbitrary: c)
  case Nil
  then show ?case by simp
next
  case (Cons ev evs)
  let ?c = "connect_step ev c"
  have ev: "early c ev" using Cons.prems(2) by simp
  have p: "promise ?c = None"
    using Cons.prems(1) ev by (cases ev) (auto simp: early_def close_def errored_def split: list.splits)
  have e: "\<forall>ev \<in> set evs. early ?c ev" using Cons.prems(2) by simp
  show ?case using Cons.IH [OF p e] by simp
qed

lemma connect_run_params [simp]:
  "connectStart (connect_run evs c) = connectStart c" "timeout (connect_run evs c) = timeout c"
  by (induction evs arbitrary: c) simp_all

lemma late_close_rejects:
  assumes "promise c = None" and "\<forall>ev \<in> set pre. early c ev"
    and "millis hrtime - connectStart c > timeout c"
  shows "promise (connect_run (pre @ [SockClose hrtime]) c)
         = Some (Broken (case last_error pre of Some e \<Rightarrow> e
                         | None \<Rightarrow> (case error c of Some e2 \<Rightarrow> e2 | None \<Rightarrow> TimedOut)))"
proof -
  let ?c = "connect_run pre c"
  have p: "promise ?c = None" by (rule pending_while_early [OF assms(1,2)])
  have e: "error ?c = (case last_error pre of Some e \<Rightarrow> Some e | None \<Rightarrow> error c)"
    by (rule error_while_early [OF assms(1,2)])
  show ?thesis
    unfolding connect_run_snoc using p e assms(3)
    by (simp add: close_def split: option.splits)
qed

lemma connect_initial:
  "path \<noteq> [] \<Longrightarrow>
   connect start_arg timeout_arg hrtime0 (Some path) =
     \<lparr> connectStart = (case start_arg of None \<Rightarrow> millis hrtime0 | Some t \<Rightarrow> t),
       timeout = (case timeout_arg of None \<Rightarrow> 5000 | Some t \<Rightarrow> t),
       error = None, promise = None, connects = 1, timers = [] \<rparr>"
  by (simp add: connect_def)

lemma add_default_frame:
  assumes "r < length h"
  shows "length (add_default r a h) = length h"
    and "take r (add_default r a h) = take r h"
    and "\<exists>ys. add_default r a h ! r = h ! r @ ys \<and> set ys \<subseteq> {a}"
  using assms by (auto simp: add_default_def)

lemma fold_add_default_frame:
  assumes "r < length h"
  shows "length (fold (add_default r) ds h) = length h
         \<and> take r (fold (add_default r) ds h) = take r h
         \<and> (\<exists>ys. fold (add_default r) ds h ! r = h ! r @ ys \<and> set ys \<subseteq> set ds)"
  using assms
proof (induction ds arbitrary: h)
  case Nil
  then show ?case by simp
next
  case (Cons d ds)
  let ?h = "add_default r d h"
  have len: "length ?h = length h" and tk: "take r ?h = take r h"
    using add_default_frame [OF Cons.prems] by auto
  obtain ys where ys: "?h ! r = h ! r @ ys" "set ys \<subseteq> {d}"
    using add_default_frame(3) [OF Cons.prems] by blast
  have r: "r < length ?h" using Cons.prems len by simp
  from Cons.IH [OF r] obtain zs where
    ih: "length (fold (add_default r) ds ?h) = length ?h"
        "take r (fold (add_default r) ds ?h) = take r ?h"
        "fold (add_default r) ds ?h ! r = ?h ! r @ zs" "set zs \<subseteq> set ds"
    by blast
  have "fold (add_default r) (d # ds) h ! r = h ! r @ (ys @ zs)" using ih(3) ys(1) by simp
  moreover have "set (ys @ zs) \<subseteq> set (d # ds)" using ys(2) ih(4) by auto
  ultimately show ?case using ih(1,2) len tk by auto
qed

lemmas line_defs = segments_def split_lines_def bad_chunk_def good_chunk_def line_pause_def
  line_cut_def line_unpause_def LF_def CR_def trim_def is_space_def sample_parse_def

lemma start_returns: "status s \<noteq> stopped \<Longrightarrow> start em s = (Returned, s)"
  by (simp add: start_def)

lemma wire_emit [simp]: "wire (emit e s) = wire s"
  by (simp add: wire_def emit_def)

lemma wire_emit_error: "emit_error e s = Inr t \<Longrightarrow> wire t = wire s"
  by (auto simp: emit_error_def split: if_splits)

lemma wire_emit_event: "emit_event n x s = Inr t \<Longrightarrow> wire t = wire s"
  by (auto simp: emit_event_def split: if_splits)

lemma wire_unmatched: "unmatched x s = Inr t \<Longrightarrow> wire t = wire s"
  by (auto simp: unmatched_def wire_emit_error split: if_splits)

lemma wire_settle [simp]: "wire (settle r v s) = wire s"
  by (simp add: wire_def settle_def emit_def Let_def split: option.splits)

lemma wire_matched [simp]: "wire (matched i r x s) = wire s"
  by (simp add: matched_def Let_def) (simp add: wire_def)

lemma wire_fold_emit [simp]: "wire (fold (\<lambda>fn t. emit (f fn) t) xs s) = wire s"
  by (induction xs arbitrary: s) simp_all

lemma wire_handle: "handle x s = Inr t \<Longrightarrow> wire t = wire s"
  unfolding handle_def
  by (simp split: if_splits option.splits) (auto dest: wire_emit_event wire_unmatched)

lemma wire_handle_all [simp]: "wire (snd (handle_all xs s)) = wire s"
proof (induction xs arbitrary: s)
  case Nil
  then show ?case by simp
next
  case (Cons x xs)
  show ?case
  proof (cases "handle x s")
    case (Inl e)
    then show ?thesis by simp
  next
    case (Inr t)
    then show ?thesis using Cons.IH [of t] wire_handle [OF Inr] by simp
  qed
qed

lemma wire_run_microtask [simp]: "wire (run_microtask m s) = wire s"
  by (cases "(m, s)" rule: run_microtask.cases)
     (simp_all add: wire_def emit_def emit_error_def)

lemma wire_fold_microtask [simp]: "wire (fold run_microtask ms s) = wire s"
  by (induction ms arbitrary: s) simp_all

lemma wire_drain [simp]: "wire (drain s) = wire s"
  by (simp add: drain_def) (simp add: wire_def)

lemma wire_deliver [simp]: "wire (snd (deliver xs s)) = wire s"
proof -
  obtain e t where h: "handle_all xs s = (e, t)" by (cases "handle_all xs s")
  have t: "wire t = wire s" using wire_handle_all [of xs s] by (simp add: h)
  show ?thesis by (cases e) (simp_all add: deliver_def h t)
qed

lemma wire_kill [simp]: "wire (kill s) = wire s"
  by (simp add: kill_def wire_def split: option.splits)

lemma wire_end_mpv [simp]: "wire (end_mpv s) = wire s"
proof (cases "process s")
  case None
  then show ?thesis by (simp add: end_mpv_def)
next
  case (Some p)
  have "wire (kill (s\<lparr> process := Some (p\<lparr> listeners := [] \<rparr>) \<rparr>)) = wire s"
    by (simp add: wire_kill) (simp add: wire_def)
  then show ?thesis by (simp add: end_mpv_def Some Let_def wire_def)
qed

lemma wire_error_listener [simp]: "wire (error_listener s) = wire s"
  by (simp add: error_listener_def)

lemma wire_process_close:
  "status s = STARTED \<Longrightarrow> wire (snd (process_close s)) = wire s"
  by (simp add: process_close_def close_listener_def start_def Let_def wire_def
      split: option.splits)

lemma status_wire: "wire t = wire s \<Longrightarrow> status t = status s"
  by (simp add: wire_def)

lemma wire_command_cong:
  "wire t = wire s \<Longrightarrow> wire (snd (command as t)) = wire (snd (command as s))"
  by (simp add: wire_def command_def Let_def write_def)

lemma status_command [simp]: "status (snd (command as s)) = status s"
  by (simp add: command_def Let_def write_def)

lemma wire_observe:
  "wire (snd (observe x fn s)) = wire s \<or> wire (snd (observe x fn s)) = wire (snd (command (observe_property (Suc (observeId s)) x) s))"
proof (cases "map_of (observers s) x \<noteq> None")
  case True
  then show ?thesis by (simp add: observe_def)
next
  case False
  let ?s1 = "s\<lparr> observeId := Suc (observeId s) \<rparr>"
  have w: "wire ?s1 = wire s" by (simp add: wire_def)
  have "wire (snd (observe x fn s)) = wire (snd (command (observe_property (Suc (observeId s)) x) ?s1))"
    using False by (simp add: observe_def Let_def split_beta) (simp add: wire_def)
  then show ?thesis using wire_command_cong [OF w] by simp
qed

lemma wire_unobserve:
  "wire (snd (unobserve x fn s)) = wire s \<or> (\<exists>as. wire (snd (unobserve x fn s)) = wire (snd (command as s)))"
proof (cases "map_of (observers s) x")
  case None
  then show ?thesis by (simp add: unobserve_def)
next
  case (Some ob)
  let ?ob1 = "ob\<lparr> fns := removeAll fn (fns ob) \<rparr>"
  let ?s2 = "s\<lparr> observers := AList.delete x (AList.update x ?ob1 (observers s)) \<rparr>"
  have w: "wire ?s2 = wire s" by (simp add: wire_def)
  show ?thesis
  proof (cases "removeAll fn (fns ob) = []")
    case True
    have "wire (snd (unobserve x fn s)) = wire (snd (command (unobserve_property (obs_id ob)) ?s2))"
      using True by (simp add: unobserve_def Some Let_def split_beta) (simp add: wire_def)
    then show ?thesis using wire_command_cong [OF w] by auto
  next
    case False
    then have "wire (snd (unobserve x fn s)) = wire s"
      by (simp add: unobserve_def Some Let_def) (simp add: wire_def)
    then show ?thesis by simp
  qed
qed

text \<open>Every event other than a settlement of the promise that \<open>start\<close> awaits either
  leaves the wire as it is, or changes the state of the socket, or does what one call of
  \<open>command\<close> does.\<close>

lemma wire_step:
  assumes "status s = STARTED" and "\<not> settles ev"
  shows "wire (step ev s) = wire s
         \<or> (\<exists>r. wire (step ev s) = wire (s\<lparr> readyState := r \<rparr>))
         \<or> (\<exists>as. wire (step ev s) = wire (snd (command as s)))"
proof (cases ev)
  case (Command as)
  then show ?thesis by auto
next
  case (Observe x fn)
  then show ?thesis using wire_observe [of x fn s] by auto
next
  case (Unobserve x fn)
  then show ?thesis using wire_unobserve [of x fn s] by auto
next
  case (Inbound xs)
  then show ?thesis by simp
next
  case (Socket r)
  then show ?thesis by auto
next
  case (Start em)
  then show ?thesis using assms(1) by (simp add: start_def)
next
  case (Connected em)
  then show ?thesis using assms(2) by (simp add: settles_def)
next
  case (ConnectFailed e)
  then show ?thesis using assms(2) by (simp add: settles_def)
next
  case SocketFailed
  then show ?thesis by simp
next
  case ProcessClosed_ev
  then show ?thesis using wire_process_close [OF assms(1)] by simp
next
  case End
  then show ?thesis by simp
next
  case OnError
  then show ?thesis by (simp add: wire_def)
next
  case OffError
  then show ?thesis by (simp add: wire_def)
qed

lemma parked_wire: "wire t = wire s \<Longrightarrow> parked s \<Longrightarrow> parked t"
  by (simp add: wire_def parked_def)

lemma parked_socket: "parked s \<Longrightarrow> parked (s\<lparr> readyState := r \<rparr>)"
  by (simp add: parked_def)

lemma parked_command: assumes "parked s" shows "parked (snd (command as s))"
proof (cases "readyState s = Open")
  case True
  then have eq: "wire (snd (command as s)) = (status s, readyState s,
        written s @ [message (mk_request (Suc (requestId s)) as)], queue s, Suc (requestId s))"
    by (simp add: command_def Let_def write_def wire_def)
  have "parked (s\<lparr> written := written s @ [message (mk_request (Suc (requestId s)) as)],
                   requestId := Suc (requestId s) \<rparr>)"
    using assms by (fastforce simp: parked_def mk_request_def)
  then show ?thesis by (rule parked_wire [rotated]) (unfold eq, simp add: wire_def)
next
  case False
  then have eq: "wire (snd (command as s)) = (status s, readyState s,
        written s, queue s @ [mk_request (Suc (requestId s)) as], Suc (requestId s))"
    by (simp add: command_def Let_def wire_def)
  have "parked (s\<lparr> queue := queue s @ [mk_request (Suc (requestId s)) as],
                   requestId := Suc (requestId s) \<rparr>)"
    using assms by (fastforce simp: parked_def mk_request_def sorted_wrt_append)
  then show ?thesis by (rule parked_wire [rotated]) (unfold eq, simp add: wire_def)
qed

lemma parked_step: "parked s \<Longrightarrow> \<not> settles ev \<Longrightarrow> parked (step ev s)"
proof -
  assume p: "parked s" and n: "\<not> settles ev"
  have st: "status s = STARTED" using p by (simp add: parked_def)
  from wire_step [OF st n] show ?thesis
  proof (elim disjE exE)
    assume "wire (step ev s) = wire s"
    then show ?thesis using p by (rule parked_wire)
  next
    fix r assume "wire (step ev s) = wire (s\<lparr> readyState := r \<rparr>)"
    then show ?thesis using parked_socket [OF p] by (rule parked_wire)
  next
    fix as assume "wire (step ev s) = wire (snd (command as s))"
    then show ?thesis using parked_command [OF p] by (rule parked_wire)
  qed
qed

lemma queue_command: "\<exists>rs. queue (snd (command as s)) = queue s @ rs"
  by (simp add: command_def Let_def write_def)

lemma queue_step:
  assumes "status s = STARTED" and "\<not> settles ev"
  shows "\<exists>rs. queue (step ev s) = queue s @ rs"
proof -
  from wire_step [OF assms] show ?thesis
  proof (elim disjE exE)
    assume "wire (step ev s) = wire s"
    then show ?thesis by (simp add: wire_def)
  next
    fix r assume "wire (step ev s) = wire (s\<lparr> readyState := r \<rparr>)"
    then show ?thesis by (simp add: wire_def)
  next
    fix as assume "wire (step ev s) = wire (snd (command as s))"
    then have "queue (step ev s) = queue (snd (command as s))" by (simp add: wire_def)
    then show ?thesis using queue_command [of as s] by simp
  qed
qed

lemma parked_run:
  "parked s \<Longrightarrow> \<forall>ev \<in> set evs. \<not> settles ev \<Longrightarrow>
   parked (run evs s) \<and> (\<exists>rs. queue (run evs s) = queue s @ rs)"
proof (induction evs arbitrary: s)
  case Nil
  then show ?case by (simp add: run_def)
next
  case (Cons ev evs)
  have n: "\<not> settles ev" using Cons.prems(2) by simp
  have p: "parked (step ev s)" by (rule parked_step [OF Cons.prems(1) n])
  have st: "status s = STARTED" using Cons.prems(1) by (simp add: parked_def)
  obtain rs where q: "queue (step ev s) = queue s @ rs" using queue_step [OF st n] by blast
  from Cons.IH [OF p] Cons.prems(2) obtain rs' where
    ih: "parked (run evs (step ev s))" "queue (run evs (step ev s)) = queue (step ev s) @ rs'"
    by auto
  show ?case using ih q by (simp add: run_def)
qed

lemma parked_started: "parked started"
  by (simp add: parked_def started_eq init_def)

lemma status_step: assumes "status s \<noteq> stopped" shows "status (step ev s) \<noteq> stopped"
proof (cases ev)
  case (Command as)
  then show ?thesis using assms by simp
next
  case (Observe x fn)
  then show ?thesis using assms by (simp add: observe_def Let_def split_beta)
next
  case (Unobserve x fn)
  then show ?thesis using assms
    by (simp add: unobserve_def Let_def split_beta split: option.splits)
next
  case (Inbound xs)
  then show ?thesis using assms status_wire [OF wire_deliver, of xs s] by simp
next
  case (Socket r)
  then show ?thesis using assms by simp
next
  case (Start em)
  then show ?thesis using assms by (simp add: start_def)
next
  case (Connected em)
  then show ?thesis by (simp add: start_connected_def Let_def emit_def)
next
  case (ConnectFailed e)
  then show ?thesis by (simp add: start_failed_def)
next
  case SocketFailed
  then show ?thesis using assms status_wire [OF wire_error_listener, of s] by simp
next
  case ProcessClosed_ev
  then show ?thesis using assms
    by (simp add: process_close_def close_listener_def start_def start_failed_def Let_def
        split: option.splits)
next
  case End
  then show ?thesis using assms status_wire [OF wire_end_mpv, of s] by simp
next
  case OnError
  then show ?thesis using assms by simp
next
  case OffError
  then show ?thesis using assms by simp
qed

lemma status_run: "status s \<noteq> stopped \<Longrightarrow> status (run evs s) \<noteq> stopped"
  unfolding run_def by (induction evs arbitrary: s) (simp_all add: status_step)

lemma start_never_again: "start em (run evs started) = (Returned, run evs started)"
proof -
  have "status started \<noteq> stopped" by (simp add: started_eq)
  then show ?thesis by (rule start_returns [OF status_run])
qed

lemma retry_rounds_connect:
  assumes "promise c = None" and "timers c = []"
    and "\<forall>hrtime \<in> set hs. millis hrtime - connectStart c \<le> timeout c"
  shows "promise (connect_run (retry_rounds hs) c) = None
         \<and> timers (connect_run (retry_rounds hs) c) = []
         \<and> connects (connect_run (retry_rounds hs) c) = connects c + length hs"
  using assms
proof (induction hs arbitrary: c)
  case Nil
  then show ?case by (simp add: retry_rounds_def)
next
  case (Cons h hs)
  let ?c = "connect_step TimerFired (connect_step (SockClose h) c)"
  have h: "millis h - connectStart c \<le> timeout c" using Cons.prems(3) by simp
  have c: "?c = c\<lparr> timers := [], connects := connects c + 1 \<rparr>"
    using Cons.prems(1,2) h by (simp add: close_def)
  have p: "promise ?c = None" and t: "timers ?c = []"
    unfolding c using Cons.prems(1) by simp_all
  have e: "\<forall>hrtime \<in> set hs. millis hrtime - connectStart ?c \<le> timeout ?c"
    unfolding c using Cons.prems(3) by simp
  have n: "connects ?c = connects c + 1" unfolding c by simp
  have r: "retry_rounds (h # hs) = SockClose h # TimerFired # retry_rounds hs"
    by (simp add: retry_rounds_def)
  have "connect_run (retry_rounds (h # hs)) c = connect_run (retry_rounds hs) ?c"
    unfolding r by simp
  then show ?case using Cons.IH [OF p t e] n by simp
qed

lemma timer_fires:
  "timers (connect_run evs c) \<noteq> [] \<Longrightarrow>
   connects (connect_run (evs @ [TimerFired]) c) = connects (connect_run evs c) + 1
   \<and> timers (connect_run (evs @ [TimerFired]) c) = tl (timers (connect_run evs c))"
  by (simp add: connect_run_snoc split: list.splits)

lemma early_close_sets_timer:
  assumes "promise c = None" and "\<forall>ev \<in> set evs. early c ev"
    and "millis hrtime - connectStart c \<le> timeout c"
  shows "timers (connect_run (evs @ [SockClose hrtime]) c) = timers (connect_run evs c) @ [20]
         \<and> connects (connect_run (evs @ [SockClose hrtime]) c) = connects (connect_run evs c)"
proof -
  have "promise (connect_run evs c) = None" by (rule pending_while_early [OF assms(1,2)])
  then show ?thesis using assms(3) by (simp add: connect_run_snoc close_def)
qed

lemmas run_defs = eval_defs sup_defs disp_defs process_close_def start_failed_def

lemma reply_settles_own_request:
  assumes "(i, r) \<in> set (requests (run evs init))"
  shows "ident r = i
         \<and> handle (success_reply i d) (run evs init)
             = Inr (matched i r (success_reply i d) (run evs init))
         \<and> requests (matched i r (success_reply i d) (run evs init))
             = AList.delete i (requests (run evs init))
         \<and> effects (matched i r (success_reply i d) (run evs init))
             = effects (run evs init) @ [Resolved r d]"
proof -
  let ?s = "run evs init"
  have ok: "ids_ok ?s" by (rule ids_ok_run [OF ids_ok_init])
  have i: "ident r = i" using ok assms by (fastforce simp: ids_ok_def)
  have "distinct (map fst (requests ?s))" using ok by (simp add: ids_ok_def)
  then have m: "map_of (requests ?s) i = Some r" using assms by (rule map_of_entry)
  have rq: "requests (matched i r (success_reply i d) ?s) = AList.delete i (requests ?s)"
    by (simp add: matched_def settle_def emit_def Let_def split: option.splits)
  show ?thesis
    using i handle_success_reply [OF m] rq effects_matched_success by simp
qed

subsection \<open>C1: no replay after a disconnect\<close>


text \<open>In general: after \<^verbatim>\<open>Mpv()\<close> has returned no call of \<open>start\<close> is suspended, so nothing
  settles the promise it awaits; and then, whatever else happens, no two writes carry
  the same request id: no request is written a second time.\<close>

lemma written_once:
  assumes "\<forall>ev \<in> set evs. \<not> settles ev"
  shows "distinct (map msg_id (written (run evs started)))
         \<and> distinct (written (run evs started))"
proof -
  have "parked (run evs started)"
    using parked_run [OF parked_started, of evs] assms by simp
  then have "distinct (map msg_id (written (run evs started)))" by (simp add: parked_def)
  then show ?thesis by (simp add: distinct_map)
qed

subsection \<open>C2: teardown\<close>

text \<open>
  C2, in the form that holds of the code. \<^verbatim>\<open>end()\<close> settles no request: it takes the
  listeners off the child, sends it the kill signal unless it is killed already or has
  exited, and releases the handle. \<^verbatim>\<open>requests\<close>, \<^verbatim>\<open>queue\<close>,
  the log of settlements and the socket are left as they were, so every request that was
  pending before the call is pending after it.
\<close>

theorem end_settles_nothing:
  "end_mpv s = s\<lparr> process := map_option (\<lambda>p. p\<lparr> killed := (killed p \<or> \<not> exited p),
                                                   listeners := [], unrefd := True \<rparr>) (process s) \<rparr>
   \<and> requests (end_mpv s) = requests s
   \<and> queue (end_mpv s) = queue s
   \<and> effects (end_mpv s) = effects s
   \<and> written (end_mpv s) = written s"
  by (cases "process s") (auto simp: end_mpv_def kill_def Let_def)

text \<open>Two requests are pending; after \<^verbatim>\<open>end()\<close> both are still in \<^verbatim>\<open>requests\<close> and none
  has been rejected.\<close>

theorem end_rejects_nothing_counterexample:
  "map fst (requests two_pending) = [1, 2]
   \<and> effects two_pending = []
   \<and> effects (end_mpv two_pending) = []
   \<and> map fst (requests (end_mpv two_pending)) = [1, 2]"
  by (simp add: two_pending_def started_eq eval_defs sup_defs volume_cmd_def pause_cmd_def)

subsection \<open>C3: the child exits\<close>

text \<open>
  C3, evaluated on the session that \<^verbatim>\<open>Mpv()\<close> returns. The session is \<^verbatim>\<open>started\<close> with the
  first child. When the child emits \<^verbatim>\<open>"close"\<close>, the listener sets the status to
  \<^verbatim>\<open>STARTED\<close> and calls \<^verbatim>\<open>start(true)\<close>, which returns at its guard: the child is marked
  as exited and its \<^verbatim>\<open>once\<close> listener of \<^verbatim>\<open>"close"\<close> is gone, and nothing else changes; no
  second child is spawned and nothing is emitted. Called with the status
  \<^verbatim>\<open>stopped\<close>, the same \<^verbatim>\<open>start(true)\<close> spawns the second child.
\<close>

theorem close_listener_spawns_nothing:
  "status started = STARTED
   \<and> map_option pid (process started) = Some 1
   \<and> spawned started = 1
   \<and> process_close started
       = (Returned, started\<lparr> process := Some \<lparr> pid = 1, killed = False, exited = True,
                                    listeners = [OnceError, OnClose], unrefd = False \<rparr> \<rparr>)
   \<and> status (snd (process_close started)) = STARTED
   \<and> spawned (snd (process_close started)) = 1
   \<and> effects (snd (process_close started)) = []
   \<and> fst (start True (started\<lparr> status := stopped \<rparr>)) = Awaiting
   \<and> spawned (snd (start True (started\<lparr> status := stopped \<rparr>))) = 2"
  by (simp add: started_eq eval_defs sup_defs)

subsection \<open>C4: two observers of one key\<close>

text \<open>
  C4, evaluated on two sessions. When the second \<^verbatim>\<open>observe\<close> of the key is called before
  the reply to the first has arrived, two \<^verbatim>\<open>observe_property\<close> commands are written, the
  second registration replaces the first, and a change of the property calls the second
  callback only. When it is called after the reply, one command is written, the second
  call ends in a \<^verbatim>\<open>TypeError\<close> and leaves the session as it was, and a change of the
  property calls the first callback only.
\<close>

theorem concurrent_observe_subscribes_twice:
  "written observed_twice
     = [Message 1 (observe_property 1 ''volume''), Message 2 (observe_property 2 ''volume'')]
   \<and> observers observed_twice = [(''volume'', \<lparr> obs_id = 2, fns = [2] \<rparr>)]
   \<and> effects (step (Inbound [property_change ''volume'' (JNum 80)]) observed_twice)
     = effects observed_twice @ [Called 2 (JNum 80)]
   \<and> written observed_once = [Message 1 (observe_property 1 ''volume'')]
   \<and> observe ''volume'' 2 observed_once = (Threw TypeError, observed_once)
   \<and> effects (step (Inbound [property_change ''volume'' (JNum 80)]) observed_once)
     = effects observed_once @ [Called 1 (JNum 80)]"
  by (simp add: observed_twice_def observed_once_def started_eq eval_defs sup_defs disp_defs)

subsection \<open>C5: request ids\<close>

text \<open>
  C5. In every session, whatever has happened in it, the ids given out by the calls of
  \<^verbatim>\<open>command\<close> so far are \<open>1, 2, 3, ...\<close> in the order of the calls (the i-th call got
  id i, so the ids increase strictly and none is used twice), the next call gets the
  next number, and no two requests that are in flight (in \<^verbatim>\<open>requests\<close> or in \<^verbatim>\<open>queue\<close>)
  hold the same id; each is stored under its own id and holds an id that was given out.
\<close>

theorem request_ids_count_the_calls:
  "let s = run evs init in
     issued s = [1 ..< Suc (length (issued s))]
     \<and> requestId s = length (issued s)
     \<and> fst (command as s) = length (issued s) + 1
     \<and> issued (snd (command as s)) = issued s @ [fst (command as s)]
     \<and> fst (commands cs s) = [length (issued s) + 1 ..< length (issued s) + 1 + length cs]
     \<and> distinct (map fst (requests s) @ map ident (queue s))
     \<and> map (ident \<circ> snd) (requests s) = map fst (requests s)
     \<and> set (map fst (requests s) @ map ident (queue s)) \<subseteq> set (issued s)"
proof -
  define s where "s = run evs init"
  have ok: "ids_ok s" unfolding s_def by (rule ids_ok_run [OF ids_ok_init])
  have iss: "issued s = [1 ..< Suc (requestId s)]" using ok by (simp add: ids_ok_def)
  have len: "length (issued s) = requestId s" by (simp add: iss)
  have d: "distinct (map fst (requests s) @ map ident (queue s))"
    using ok by (auto simp: ids_ok_def)
  have k: "map (ident \<circ> snd) (requests s) = map fst (requests s)"
    using ok by (auto simp: ids_ok_def)
  have sub: "set (map fst (requests s) @ map ident (queue s)) \<subseteq> set (issued s)"
  proof
    fix i assume "i \<in> set (map fst (requests s) @ map ident (queue s))"
    then have "0 < i \<and> i \<le> requestId s" using ok by (fastforce simp: ids_ok_def)
    then show "i \<in> set (issued s)" unfolding iss by (simp del: upt_Suc)
  qed
  show ?thesis
    unfolding Let_def s_def [symmetric] len
    using iss d k sub by (simp add: command_id command_issued fst_commands del: upt_Suc)
qed

subsection \<open>C6: queued commands\<close>


text \<open>In general: after \<^verbatim>\<open>Mpv()\<close> has returned no call of \<open>start\<close> is suspended, so nothing
  settles the promise it awaits; and then, whatever else happens, a request that is in
  the queue stays in the queue, in its place, and its message is never written.\<close>

lemma queued_never_written:
  assumes "\<forall>ev \<in> set (evs @ evs'). \<not> settles ev" and "r \<in> set (queue (run evs started))"
  shows "r \<in> set (queue (run (evs @ evs') started))
         \<and> message r \<notin> set (written (run (evs @ evs') started))
         \<and> take (length (queue (run evs started))) (queue (run (evs @ evs') started))
             = queue (run evs started)"
proof -
  let ?s = "run evs started" and ?t = "run (evs @ evs') started"
  have t: "?t = run evs' ?s" by (simp add: run_def)
  have ps: "parked ?s" using parked_run [OF parked_started, of evs] assms(1) by simp
  from parked_run [OF ps, of evs'] assms(1) obtain rs where
    pt: "parked ?t" and q: "queue ?t = queue ?s @ rs"
    unfolding t by auto
  have mem: "r \<in> set (queue ?t)" using assms(2) q by simp
  have "msg_id (message r) = ident r" using pt mem by (simp add: parked_def)
  then have "message r \<notin> set (written ?t)" using pt mem by (auto simp: parked_def)
  then show ?thesis using mem q by simp
qed

subsection \<open>C7: a line that does not parse\<close>

text \<open>
  C7, in the form that holds of the code. The non-empty segments of a chunk are all parsed before any of them is
  handled, each on its own. If every segment parses, the frames are handled in the order
  of the lines. If one segment does not parse, \<^verbatim>\<open>data\<close> throws the \<^verbatim>\<open>SyntaxError\<close> and
  the session is as it was: no line of the chunk is dispatched, neither one before the
  malformed line nor one after it.
\<close>

theorem data_parses_all_lines_first:
  "((\<exists>l \<in> set (segments x). parse (trim l) = None) \<longrightarrow> data parse x s = (Some SyntaxError, s))
   \<and> ((\<forall>l \<in> set (segments x). parse (trim l) = Some (f l)) \<longrightarrow>
        data parse x s = deliver (map f (segments x)) s)
   \<and> [] \<notin> set (segments x)"
proof -
  have a: "data parse x s = (Some SyntaxError, s)" if "\<exists>l \<in> set (segments x). parse (trim l) = None"
    using that parse_all_None [of parse "segments x"] by (simp add: data_def)
  have b: "data parse x s = deliver (map f (segments x)) s"
    if "\<forall>l \<in> set (segments x). parse (trim l) = Some (f l)"
    using parse_all_Some [OF that] by (simp add: data_def)
  have c: "[] \<notin> set (segments x)" by (simp add: segments_def)
  show ?thesis using a b c by blast
qed

theorem data_parses_all_lines_first_witness:
  "(\<exists>l \<in> set (segments bad_chunk). sample_parse (trim l) = None)
   \<and> data sample_parse bad_chunk started = (Some SyntaxError, started)
   \<and> data sample_parse good_chunk started
       = deliver [JObj [(''event'', JStr ''pause'')], JObj [(''event'', JStr ''unpause'')]] started"
proof -
  have bad: "\<exists>l \<in> set (segments bad_chunk). sample_parse (trim l) = None"
    by (simp add: line_defs)
  have good: "\<forall>l \<in> set (segments good_chunk).
      sample_parse (trim l) = Some (the (sample_parse (trim l)))"
    by (simp add: line_defs)
  have frames: "map (\<lambda>l. the (sample_parse (trim l))) (segments good_chunk)
      = [JObj [(''event'', JStr ''pause'')], JObj [(''event'', JStr ''unpause'')]]"
    by (simp add: line_defs)
  have a: "data sample_parse bad_chunk started = (Some SyntaxError, started)"
    using data_parses_all_lines_first [of bad_chunk sample_parse started] bad by blast
  have b: "data sample_parse good_chunk started
       = deliver (map (\<lambda>l. the (sample_parse (trim l))) (segments good_chunk)) started"
    using data_parses_all_lines_first [of good_chunk sample_parse started
        "\<lambda>l. the (sample_parse (trim l))"] good by blast
  show ?thesis using bad a b unfolding frames by blast
qed

text \<open>The second of three lines is cut off. The two other lines parse, but nothing
  is dispatched; without the second line both events are emitted.\<close>

theorem malformed_line_drops_chunk_counterexample:
  "segments bad_chunk = [line_pause, line_cut, line_unpause]
   \<and> sample_parse (trim line_pause) = Some (JObj [(''event'', JStr ''pause'')])
   \<and> sample_parse (trim line_cut) = None
   \<and> sample_parse (trim line_unpause) = Some (JObj [(''event'', JStr ''unpause'')])
   \<and> data sample_parse bad_chunk started = (Some SyntaxError, started)
   \<and> effects (snd (data sample_parse good_chunk started))
       = [Emitted (JStr ''pause'') (JObj [(''event'', JStr ''pause'')]),
          Emitted (JStr ''unpause'') (JObj [(''event'', JStr ''unpause'')])]"
  by (simp add: line_defs data_def started_eq init_def deliver_def handle_def drain_def emit_def
      emit_event_def)

subsection \<open>C8: connecting\<close>

text \<open>
  C8. A call of \<^verbatim>\<open>connect\<close> with a socket path has the timeout 5000 unless one is given,
  counts from the clock at the call, and has called \<^verbatim>\<open>socket.connect\<close> once. As long as
  every \<^verbatim>\<open>"close"\<close> of the socket comes within the timeout, the promise stays pending;
  each such \<^verbatim>\<open>"close"\<close> sets one timer of 20 ms and does not connect, and each timer that
  fires calls \<^verbatim>\<open>socket.connect\<close> once more, so that after n rounds of a \<^verbatim>\<open>"close"\<close> and its
  timer the socket has been connected n + 1 times. The first \<^verbatim>\<open>"close"\<close> that comes later
  than the timeout rejects the promise, with the last error the socket reported or, if
  it reported none, with the timed-out error; and a rejected promise was rejected in
  this way only.
\<close>

theorem connect_retries_until_timeout:
  assumes "path \<noteq> []"
  shows "let c0 = connect None timeout_arg hrtime0 (Some path) in
      timeout (connect None None hrtime0 (Some path)) = 5000
    \<and> connectStart c0 = millis hrtime0
    \<and> promise c0 = None
    \<and> connects c0 = 1
    \<and> ((\<forall>ev \<in> set evs. early c0 ev) \<longrightarrow>
          promise (connect_run evs c0) = None
          \<and> set (timers (connect_run evs c0)) \<subseteq> {20}
          \<and> connects (connect_run evs c0) + length (timers (connect_run evs c0))
              = 1 + length (filter is_close evs))
    \<and> ((\<forall>ev \<in> set evs. early c0 ev) \<and> millis hrtime - millis hrtime0 \<le> timeout c0 \<longrightarrow>
          timers (connect_run (evs @ [SockClose hrtime]) c0) = timers (connect_run evs c0) @ [20]
          \<and> connects (connect_run (evs @ [SockClose hrtime]) c0) = connects (connect_run evs c0))
    \<and> (timers (connect_run evs c0) \<noteq> [] \<longrightarrow>
          connects (connect_run (evs @ [TimerFired]) c0) = connects (connect_run evs c0) + 1
          \<and> timers (connect_run (evs @ [TimerFired]) c0) = tl (timers (connect_run evs c0)))
    \<and> ((\<forall>hrtime1 \<in> set hs. millis hrtime1 - millis hrtime0 \<le> timeout c0) \<longrightarrow>
          promise (connect_run (retry_rounds hs) c0) = None
          \<and> timers (connect_run (retry_rounds hs) c0) = []
          \<and> connects (connect_run (retry_rounds hs) c0) = 1 + length hs)
    \<and> ((\<forall>ev \<in> set evs. early c0 ev) \<and> millis hrtime - millis hrtime0 > timeout c0 \<longrightarrow>
          promise (connect_run (evs @ [SockClose hrtime]) c0)
            = Some (Broken (case last_error evs of Some e1 \<Rightarrow> e1 | None \<Rightarrow> TimedOut)))
    \<and> (promise (connect_run evs c0) = Some (Broken e) \<longrightarrow>
          (\<exists>pre hrtime1 post. evs = pre @ SockClose hrtime1 # post
             \<and> millis hrtime1 - millis hrtime0 > timeout c0
             \<and> e = (case last_error pre of Some e1 \<Rightarrow> e1 | None \<Rightarrow> TimedOut)))"
proof -
  define c0 where "c0 = connect None timeout_arg hrtime0 (Some path)"
  have c0: "c0 = \<lparr> connectStart = millis hrtime0,
       timeout = (case timeout_arg of None \<Rightarrow> 5000 | Some t \<Rightarrow> t),
       error = None, promise = None, connects = 1, timers = [] \<rparr>"
    unfolding c0_def by (simp add: connect_initial [OF assms])
  have f: "connectStart c0 = millis hrtime0" "promise c0 = None" "error c0 = None"
    "connects c0 = 1" "timers c0 = []"
    by (simp_all add: c0)
  have d: "timeout (connect None None hrtime0 (Some path)) = 5000"
    by (simp add: connect_initial [OF assms])
  have r: "promise (connect_run evs c0) = None
          \<and> set (timers (connect_run evs c0)) \<subseteq> {20}
          \<and> connects (connect_run evs c0) + length (timers (connect_run evs c0))
              = 1 + length (filter is_close evs)"
    if "\<forall>ev \<in> set evs. early c0 ev"
    using retries_while_early [OF f(2) that] by (simp add: f)
  have k: "timers (connect_run (evs @ [SockClose hrtime]) c0) = timers (connect_run evs c0) @ [20]
          \<and> connects (connect_run (evs @ [SockClose hrtime]) c0) = connects (connect_run evs c0)"
    if "\<forall>ev \<in> set evs. early c0 ev" "millis hrtime - millis hrtime0 \<le> timeout c0"
    using early_close_sets_timer [OF f(2) that(1), of hrtime] that(2) by (simp add: f)
  have t: "connects (connect_run (evs @ [TimerFired]) c0) = connects (connect_run evs c0) + 1
          \<and> timers (connect_run (evs @ [TimerFired]) c0) = tl (timers (connect_run evs c0))"
    if "timers (connect_run evs c0) \<noteq> []"
    using timer_fires [OF that] .
  have g: "promise (connect_run (retry_rounds hs) c0) = None
          \<and> timers (connect_run (retry_rounds hs) c0) = []
          \<and> connects (connect_run (retry_rounds hs) c0) = 1 + length hs"
    if "\<forall>hrtime1 \<in> set hs. millis hrtime1 - millis hrtime0 \<le> timeout c0"
    using retry_rounds_connect [OF f(2) f(5), of hs] that by (simp add: f)
  have l: "promise (connect_run (evs @ [SockClose hrtime]) c0)
            = Some (Broken (case last_error evs of Some e1 \<Rightarrow> e1 | None \<Rightarrow> TimedOut))"
    if "\<forall>ev \<in> set evs. early c0 ev" "millis hrtime - millis hrtime0 > timeout c0"
    using late_close_rejects [OF f(2) that(1), of hrtime] that(2)
    by (simp add: f split: option.splits)
  have b: "\<exists>pre hrtime1 post. evs = pre @ SockClose hrtime1 # post
             \<and> millis hrtime1 - millis hrtime0 > timeout c0
             \<and> e = (case last_error pre of Some e1 \<Rightarrow> e1 | None \<Rightarrow> TimedOut)"
    if "promise (connect_run evs c0) = Some (Broken e)"
    using rejected_after_late_close [OF f(2) that, unfolded f(1,3) option.case] .
  show ?thesis
    unfolding Let_def c0_def [symmetric] using d f(1,2,4) r k t g l b by blast
qed

theorem connect_retries_until_timeout_witness:
  "''/tmp/mpvsocket'' \<noteq> []
   \<and> promise (connect_run first_tries (connect None None 10000000 (Some ''/tmp/mpvsocket''))) = None
   \<and> connects (connect_run first_tries (connect None None 10000000 (Some ''/tmp/mpvsocket'')))
       + length (timers (connect_run first_tries (connect None None 10000000 (Some ''/tmp/mpvsocket'')))) = 2
   \<and> connects (connect_run (retry_rounds [30000000, 50000000])
         (connect None None 10000000 (Some ''/tmp/mpvsocket''))) = 3
   \<and> timers (connect_run ([SockClose 30000000] @ [SockClose 50000000])
         (connect None None 10000000 (Some ''/tmp/mpvsocket''))) = [20, 20]
   \<and> connects (connect_run ([SockClose 30000000] @ [TimerFired])
         (connect None None 10000000 (Some ''/tmp/mpvsocket''))) = 2
   \<and> promise (connect_run (first_tries @ [SockClose 6000000000])
         (connect None None 10000000 (Some ''/tmp/mpvsocket'')))
       = Some (Broken (SocketError ''ENOENT''))"
proof -
  let ?c0 = "connect None None 10000000 (Some ''/tmp/mpvsocket'')"
  have path: "''/tmp/mpvsocket'' \<noteq> []" by simp
  have c0: "connectStart ?c0 = 10" "timeout ?c0 = 5000"
    by (simp_all add: connect_def millis_def)
  have early: "\<forall>ev \<in> set first_tries. early ?c0 ev"
    by (simp add: first_tries_def early_def c0 millis_def)
  have late: "millis 6000000000 - millis 10000000 > timeout ?c0"
    by (simp add: c0 millis_def)
  have n: "length (filter is_close first_tries) = 1"
    by (simp add: first_tries_def is_close_def)
  have le: "last_error first_tries = Some (SocketError ''ENOENT'')"
    by (simp add: first_tries_def)
  note t = connect_retries_until_timeout [OF path, of None 10000000 first_tries 6000000000 _ _,
      unfolded Let_def]
  from t early have a: "promise (connect_run first_tries ?c0) = None" by blast
  from t early have b: "connects (connect_run first_tries ?c0)
       + length (timers (connect_run first_tries ?c0)) = 1 + length (filter is_close first_tries)"
    by blast
  from t early late have c: "promise (connect_run (first_tries @ [SockClose 6000000000]) ?c0)
       = Some (Broken (case last_error first_tries of Some e1 \<Rightarrow> e1 | None \<Rightarrow> TimedOut))"
    by blast
  have hs: "\<forall>hrtime1 \<in> set [30000000, 50000000]. millis hrtime1 - millis 10000000 \<le> timeout ?c0"
    by (simp add: c0 millis_def)
  note u = connect_retries_until_timeout [OF path, of None 10000000 "[SockClose 30000000]" 50000000
      "[30000000, 50000000]", unfolded Let_def]
  from u hs have d: "connects (connect_run (retry_rounds [30000000, 50000000]) ?c0)
      = 1 + length [30000000, 50000000 :: nat]"
    by blast
  have early1: "\<forall>ev \<in> set [SockClose 30000000]. early ?c0 ev"
    by (simp add: early_def c0 millis_def)
  have in_time: "millis 50000000 - millis 10000000 \<le> timeout ?c0"
    by (simp add: c0 millis_def)
  have one: "timers (connect_run [SockClose 30000000] ?c0) = [20]"
    "connects (connect_run [SockClose 30000000] ?c0) = 1"
    by (simp_all add: connect_def close_def millis_def)
  from u early1 in_time have e: "timers (connect_run ([SockClose 30000000] @ [SockClose 50000000]) ?c0)
      = timers (connect_run [SockClose 30000000] ?c0) @ [20]"
    by blast
  have ne: "timers (connect_run [SockClose 30000000] ?c0) \<noteq> []" unfolding one by simp
  from u ne have g: "connects (connect_run ([SockClose 30000000] @ [TimerFired]) ?c0)
      = connects (connect_run [SockClose 30000000] ?c0) + 1"
    by blast
  have b': "connects (connect_run first_tries ?c0)
       + length (timers (connect_run first_tries ?c0)) = 2"
    using b unfolding n by simp
  have c': "promise (connect_run (first_tries @ [SockClose 6000000000]) ?c0)
       = Some (Broken (SocketError ''ENOENT''))"
    using c unfolding le by simp
  have d': "connects (connect_run (retry_rounds [30000000, 50000000]) ?c0) = 3"
    using d by simp
  have e': "timers (connect_run ([SockClose 30000000] @ [SockClose 50000000]) ?c0) = [20] @ [20]"
    using e unfolding one .
  have e'': "timers (connect_run ([SockClose 30000000] @ [SockClose 50000000]) ?c0) = [20, 20]"
    using e' by (simp only: append_Cons append_Nil)
  have g': "connects (connect_run ([SockClose 30000000] @ [TimerFired]) ?c0) = 2"
    using g unfolding one by (simp only: one_add_one)
  show ?thesis
    by (intro conjI) (rule path, rule a, rule b', rule d', rule e'', rule g', rule c')
qed

subsection \<open>C9: unsubscribing twice\<close>

text \<open>
  C9, evaluated on the session in which \<^verbatim>\<open>observe("volume", cb1)\<close> has been acknowledged.
  The first call of the function that \<^verbatim>\<open>observe\<close> returned succeeds and deletes the entry
  of the key, cb1 being its only callback. The second call finds no entry and is
  rejected with a \<^verbatim>\<open>TypeError\<close>.
\<close>

theorem second_unsubscribe_fails:
  "map fst (observers observed_once) = [''volume'']
   \<and> fst (unobserve ''volume'' 1 observed_once) = None
   \<and> map fst (observers (snd (unobserve ''volume'' 1 observed_once))) = []
   \<and> fst (unobserve ''volume'' 1 (snd (unobserve ''volume'' 1 observed_once))) = Some TypeError"
  by (simp add: observed_once_def started_eq eval_defs sup_defs disp_defs)

text \<open>In general a second call leaves the session as the first call left it, and it fails
  exactly when the key has no entry after the first call.\<close>

lemma unsubscribe_twice:
  "snd (unobserve x fn (snd (unobserve x fn s))) = snd (unobserve x fn s)
   \<and> fst (unobserve x fn (snd (unobserve x fn s)))
       = (case map_of (observers s) x of
            None \<Rightarrow> Some TypeError
          | Some ob \<Rightarrow> if removeAll fn (fns ob) = [] then Some TypeError else None)"
proof (cases "map_of (observers s) x")
  case None
  then show ?thesis by (simp add: unobserve_def)
next
  case (Some ob)
  show ?thesis
  proof (cases "removeAll fn (fns ob) = []")
    case True
    have gone: "map_of (observers (snd (unobserve x fn s))) x = None"
      by (simp add: unobserve_def Some True Let_def command_def write_def delete_conv' split: prod.splits)
    show ?thesis by (simp add: Some True) (simp add: unobserve_def [of x fn "snd (unobserve x fn s)"] gone)
  next
    case False
    let ?ob1 = "ob\<lparr> fns := removeAll fn (fns ob) \<rparr>"
    have s1: "snd (unobserve x fn s) = s\<lparr> observers := AList.update x ?ob1 (observers s) \<rparr>"
      by (simp add: unobserve_def Some False Let_def)
    show ?thesis
      by (simp add: s1 Some False) (simp add: unobserve_def update_conv' False Let_def)
  qed
qed

subsection \<open>C10: the caller's array\<close>

text \<open>
  C10. \<^verbatim>\<open>Mpv\<close> leaves every array that existed before the call as it was, the caller's
  \<^verbatim>\<open>args\<close> among them: the defaults are pushed to a new array, which starts with a copy of
  the caller's elements in their order.
\<close>

theorem caller_args_not_mutated:
  assumes "a < length h"
  shows "take (length h) (fst (Mpv_args h (Some a) win32 rnd)) = h
         \<and> fst (Mpv_args h (Some a) win32 rnd) ! a = h ! a
         \<and> snd (Mpv_args h (Some a) win32 rnd) = length h
         \<and> length (fst (Mpv_args h (Some a) win32 rnd)) = Suc (length h)
         \<and> (\<exists>added. fst (Mpv_args h (Some a) win32 rnd) ! length h = h ! a @ added
                     \<and> set added \<subseteq> set (defaults win32 rnd))"
proof -
  let ?h2 = "h @ [h ! a]"
  let ?r = "length h"
  let ?h3 = "fold (add_default ?r) (defaults win32 rnd) ?h2"
  have eq: "Mpv_args h (Some a) win32 rnd = (?h3, ?r)" by (simp add: Mpv_args_def Let_def)
  have r: "?r < length ?h2" by simp
  from fold_add_default_frame [OF r, of "defaults win32 rnd"] obtain added where
    f: "length ?h3 = length ?h2" "take ?r ?h3 = take ?r ?h2"
       "?h3 ! ?r = ?h2 ! ?r @ added" "set added \<subseteq> set (defaults win32 rnd)"
    by blast
  have t: "take ?r ?h3 = h" using f(2) by simp
  have "?h3 ! a = take ?r ?h3 ! a" using assms by simp
  then have at: "?h3 ! a = h ! a" by (simp only: t)
  have copy: "?h3 ! ?r = h ! a @ added" using f(3) by simp
  show ?thesis unfolding eq fst_conv snd_conv using t at f(1) copy f(4) by auto
qed

theorem caller_args_not_mutated_witness:
  "(0::nat) < length [[''--no-video'', ''--idle=once'']]
   \<and> fst (Mpv_args [[''--no-video'', ''--idle=once'']] (Some 0) False ''k3x'') ! 0
       = [''--no-video'', ''--idle=once'']
   \<and> fst (Mpv_args [[''--no-video'', ''--idle=once'']] (Some 0) False ''k3x'') ! 1
       = [''--no-video'', ''--idle=once'', ''--input-ipc-server=/tmp/mpvsocketk3x'',
          ''--audio-fallback-to-null=yes'', ''--no-config'', ''--msg-level=all=warn'']"
  using caller_args_not_mutated [of 0 "[[''--no-video'', ''--idle=once'']]" False "''k3x''"]
  by (simp add: Mpv_args_def add_default_def defaults_def randomPath_def socketArg_def
      startsWith_def option_key_def Let_def)

end
